theory Spec2Isabelle
  imports Complex_Main "HOL-Library.Word" "HOL-Library.Log_Nat"
begin

section \<open>BandMatrix: bandwidth accessors (include/slate/BandMatrix.hh)\<close>

text \<open>
  \<^verbatim>\<open>Op\<close> is the transposition tag of a matrix view. The accessors only ask whether
  it is \<^verbatim>\<open>Op::NoTrans\<close>.
\<close>

datatype Op = NoTrans | Trans | ConjTrans

text \<open>
  The part of a \<^verbatim>\<open>BandMatrix<scalar_t>\<close> object the accessors touch: the view's
  \<^verbatim>\<open>op()\<close> (kept by the base class) and the two protected members
  \<^verbatim>\<open>int64_t kl_, ku_\<close>. The fields are named \<open>kl\<close> and \<open>ku\<close>, an identifier
  cannot end in an underscore here.
\<close>

record BandMatrix =
  op :: Op
  kl :: "64 word"
  ku :: "64 word"

text \<open>\<^verbatim>\<open>return (this->op() == Op::NoTrans ? kl_ : ku_);\<close>\<close>

definition lowerBandwidth :: "BandMatrix \<Rightarrow> 64 word" where
  "lowerBandwidth M = (if op M = NoTrans then kl M else ku M)"

text \<open>\<^verbatim>\<open>if (this->op() == Op::NoTrans) this->kl_ = kl; else this->ku_ = kl;\<close>\<close>

definition set_lowerBandwidth :: "64 word \<Rightarrow> BandMatrix \<Rightarrow> BandMatrix" where
  "set_lowerBandwidth k M = (if op M = NoTrans then M\<lparr>kl := k\<rparr> else M\<lparr>ku := k\<rparr>)"

text \<open>\<^verbatim>\<open>return (this->op() == Op::NoTrans ? ku_ : kl_);\<close>\<close>

definition upperBandwidth :: "BandMatrix \<Rightarrow> 64 word" where
  "upperBandwidth M = (if op M = NoTrans then ku M else kl M)"

text \<open>\<^verbatim>\<open>if (this->op() == Op::NoTrans) this->ku_ = ku; else this->kl_ = ku;\<close>\<close>

definition set_upperBandwidth :: "64 word \<Rightarrow> BandMatrix \<Rightarrow> BandMatrix" where
  "set_upperBandwidth k M = (if op M = NoTrans then M\<lparr>ku := k\<rparr> else M\<lparr>kl := k\<rparr>)"


section \<open>device::geset (src/omptarget/device\_geset.cc)\<close>

text \<open>
  Device memory is a map from element offsets to values, together with the log of the
  offsets written so far, in program order. The log is what lets a statement say that
  nothing was written, which an unchanged cell alone would not.
\<close>

record 'a memory =
  cell :: "int \<Rightarrow> 'a"
  writes :: "int list"

definition store :: "int \<Rightarrow> 'a \<Rightarrow> 'a memory \<Rightarrow> 'a memory" where
  "store p v mem = \<lparr>cell = (cell mem)(p := v), writes = writes mem @ [p]\<rparr>"

text \<open>
  The inner loop \<^verbatim>\<open>for (int64_t j = 0; j < n; ++j) rowA[j*lda] = (j != i) ? offdiag_value : diag_value;\<close>
  with \<^verbatim>\<open>rowA = &A[i]\<close>. The pointer \<open>A\<close> is the offset of the tile's first element.
\<close>

function geset_j :: "int \<Rightarrow> int \<Rightarrow> int \<Rightarrow> 'a \<Rightarrow> 'a \<Rightarrow> int \<Rightarrow> int \<Rightarrow> 'a memory \<Rightarrow> 'a memory" where
  "geset_j i j n offdiag_value diag_value A lda mem =
     (if j < n
      then geset_j i (j + 1) n offdiag_value diag_value A lda
             (store (A + i + j * lda) (if j \<noteq> i then offdiag_value else diag_value) mem)
      else mem)"
  by pat_completeness auto
termination
  by (relation "measure (\<lambda>(i, j, n, _). nat (n - j))") auto

text \<open>
  The outer loop \<^verbatim>\<open>for (int64_t i = 0; i < m; ++i)\<close>. The source distributes its
  iterations over the device's threads; they are taken here in index order. Iterations
  write pairwise different cells whenever \<open>m \<le> lda\<close> (lemma \<open>geset_writes_distinct\<close>
  below), so under the documented precondition the order does not matter.
\<close>

function geset_i :: "int \<Rightarrow> int \<Rightarrow> int \<Rightarrow> 'a \<Rightarrow> 'a \<Rightarrow> int \<Rightarrow> int \<Rightarrow> 'a memory \<Rightarrow> 'a memory" where
  "geset_i i m n offdiag_value diag_value A lda mem =
     (if i < m
      then geset_i (i + 1) m n offdiag_value diag_value A lda
             (geset_j i 0 n offdiag_value diag_value A lda mem)
      else mem)"
  by pat_completeness auto
termination
  by (relation "measure (\<lambda>(i, m, _). nat (m - i))") auto

text \<open>\<^verbatim>\<open>device::geset\<close>: the quick return, then the loop nest.\<close>

definition geset :: "int \<Rightarrow> int \<Rightarrow> 'a \<Rightarrow> 'a \<Rightarrow> int \<Rightarrow> int \<Rightarrow> 'a memory \<Rightarrow> 'a memory" where
  "geset m n offdiag_value diag_value A lda mem =
     (if m = 0 \<or> n = 0 then mem
      else geset_i 0 m n offdiag_value diag_value A lda mem)"

text \<open>
  \<^verbatim>\<open>device::batch::geset\<close>: \<open>Aarray k\<close> is the pointer stored at \<^verbatim>\<open>Aarray[k]\<close>. The
  loop over the batch runs the same loop nest on each tile.
\<close>

function batch_geset_k :: "int \<Rightarrow> int \<Rightarrow> int \<Rightarrow> int \<Rightarrow> 'a \<Rightarrow> 'a \<Rightarrow> (int \<Rightarrow> int) \<Rightarrow> int \<Rightarrow> 'a memory \<Rightarrow> 'a memory" where
  "batch_geset_k k batch_count m n offdiag_value diag_value Aarray lda mem =
     (if k < batch_count
      then batch_geset_k (k + 1) batch_count m n offdiag_value diag_value Aarray lda
             (geset_i 0 m n offdiag_value diag_value (Aarray k) lda mem)
      else mem)"
  by pat_completeness auto
termination
  by (relation "measure (\<lambda>(k, batch_count, _). nat (batch_count - k))") auto

definition batch_geset :: "int \<Rightarrow> int \<Rightarrow> 'a \<Rightarrow> 'a \<Rightarrow> (int \<Rightarrow> int) \<Rightarrow> int \<Rightarrow> int \<Rightarrow> 'a memory \<Rightarrow> 'a memory" where
  "batch_geset m n offdiag_value diag_value Aarray lda batch_count mem =
     (if batch_count = 0 then mem
      else if m = 0 \<or> n = 0 then mem
      else batch_geset_k 0 batch_count m n offdiag_value diag_value Aarray lda mem)"


section \<open>internal::ttmlq, host implementation (src/internal/internal\_ttmlq.cc)\<close>

subsection \<open>Matrices, arguments and events\<close>

datatype Side = Left | Right

text \<open>
  The values of \<^verbatim>\<open>TileReleaseStrategy\<close> that \<^verbatim>\<open>ttmlq\<close> names, and one for every other
  value of the enumeration, whose declaration is in a header outside the sources at hand.
\<close>

datatype TileReleaseStrategy = Internal | All | Other_strategy

text \<open>
  Modelled from the spec: the matrix class (\<^verbatim>\<open>slate/Matrix.hh\<close>) is not among the sources.
  A matrix view is what \<^verbatim>\<open>ttmlq\<close> asks of it: its tile counts, the distribution
  (``a pure function \<^verbatim>\<open>owner(tileRow, tileCol) -> rankId\<close> ... deterministic and identical
  across all ranks''), the tile sizes, and the rank of the process that holds this object.
\<close>

record Matrix =
  mt :: int
  nt :: int
  tileRank :: "int \<Rightarrow> int \<Rightarrow> int"
  tileMb :: "int \<Rightarrow> int"
  tileNb :: "int \<Rightarrow> int"
  mpiRank :: int

text \<open>
  Modelled from the spec: ``\<^verbatim>\<open>isLocalOrigin(coord) -> bool\<close>: true iff
  \<^verbatim>\<open>owner(coord) == thisRank\<close>''.
\<close>

definition tileIsLocal :: "Matrix \<Rightarrow> int \<Rightarrow> int \<Rightarrow> bool" where
  "tileIsLocal M i j = (tileRank M i j = mpiRank M)"

text \<open>
  Modelled from the spec: ``\<^verbatim>\<open>ranksIn(setOfCoords) -> set<rankId>\<close>'', here of all tiles of
  the view. The result is a \<^verbatim>\<open>std::set<int>\<close>, which the caller walks in ascending order:
  the sorted list of the ranks, each once.
\<close>

definition getRanks :: "Matrix \<Rightarrow> int list" where
  "getRanks M =
     sort (remdups (map (\<lambda>(i, j). tileRank M i j) (List.product [0..mt M - 1] [0..nt M - 1])))"

text \<open>
  The arguments of one call. \<open>arg_opts\<close> is the entry of \<^verbatim>\<open>opts\<close> under
  \<^verbatim>\<open>Option::TileReleaseStrategy\<close>, if there is one. The matrix \<^verbatim>\<open>T\<close> is only ever
  addressed at the tiles \<^verbatim>\<open>T(0, rank_ind)\<close>; it needs no field.
\<close>

record ttmlq_args =
  arg_side :: Side
  arg_op :: Op
  arg_A :: Matrix
  arg_C :: Matrix
  arg_tag :: int
  arg_opts :: "TileReleaseStrategy option"

text \<open>
  What can stop the function other than its return: a failed \<^verbatim>\<open>assert\<close>, an access
  outside \<^verbatim>\<open>rank_indices\<close>, a remainder by zero, an index loop whose increment is not
  positive (it never reaches its bound), and the conversion of \<^verbatim>\<open>ceil(log2(0))\<close> to
  \<^verbatim>\<open>int\<close>.
\<close>

datatype fault = AssertFailed | OutOfRange | DivByZero | NoProgress | Undefined

datatype Matrix_id = MatA | MatT | MatC

text \<open>
  The calls \<^verbatim>\<open>ttmlq\<close> makes on tiles, in program order, are its trace. Sends, receives and
  the assertion are on tiles of \<^verbatim>\<open>C\<close>:
  \<^item> \<open>TileSend i j dst tag\<close> is \<^verbatim>\<open>C.tileSend(i, j, dst, tag)\<close>;
  \<^item> \<open>TileRecv i j src tag\<close> is \<^verbatim>\<open>C.tileRecv(i, j, src, layout, tag)\<close>;
  \<^item> \<open>AssertModified i j\<close> is
    \<^verbatim>\<open>assert( (C.tileState( i, j, HostNum ) & MOSI::Modified) != 0 )\<close>;
  \<^item> \<open>Tpmlqt side op l a t c1 c2\<close> is \<^verbatim>\<open>tpmlqt(side, op, l, A(a), T(t), C(c1), C(c2))\<close>.
\<close>

datatype event =
    TileGetForReading Matrix_id int int
  | TileGetForWriting Matrix_id int int
  | TileSend int int int int
  | TileRecv int int int int
  | AssertModified int int
  | Tpmlqt Side Op int "int \<times> int" "int \<times> int" "int \<times> int" "int \<times> int"
  | TileTick Matrix_id int int

subsection \<open>The participant list\<close>

text \<open>
  \<^verbatim>\<open>call_tile_tick\<close>: \<^verbatim>\<open>get_option\<close> returns the entry of \<^verbatim>\<open>opts\<close>, or the default
  \<^verbatim>\<open>TileReleaseStrategy::All\<close>.
\<close>

definition call_tile_tick :: "ttmlq_args \<Rightarrow> bool" where
  "call_tile_tick a =
     (let tile_release_strategy = (case arg_opts a of None \<Rightarrow> All | Some s \<Rightarrow> s)
      in tile_release_strategy = Internal \<or> tile_release_strategy = All)"

text \<open>
  The inner loop of the search, for one rank \<open>r\<close>:
  \<^verbatim>\<open>for (j = 0; j < A_nt; ++j) if (A.tileRank(0, j) == r) { rank_indices.push_back({r, j}); break; }\<close>
\<close>

function first_col :: "Matrix \<Rightarrow> int \<Rightarrow> int \<Rightarrow> int \<Rightarrow> (int \<times> int) list \<Rightarrow> (int \<times> int) list" where
  "first_col M r j A_nt rank_indices =
     (if j < A_nt
      then (if tileRank M 0 j = r then rank_indices @ [(r, j)]
            else first_col M r (j + 1) A_nt rank_indices)
      else rank_indices)"
  by pat_completeness auto
termination
  by (relation "measure (\<lambda>(M, r, j, A_nt, _). nat (A_nt - j))") auto

text \<open>The outer loop \<^verbatim>\<open>for (int r: ranks_set)\<close>.\<close>

primrec scan_ranks :: "Matrix \<Rightarrow> int list \<Rightarrow> (int \<times> int) list \<Rightarrow> (int \<times> int) list" where
  "scan_ranks M [] rank_indices = rank_indices"
| "scan_ranks M (r # ranks_set) rank_indices =
     scan_ranks M ranks_set (first_col M r 0 (nt M) rank_indices)"

text \<open>
  \<^verbatim>\<open>std::sort(rank_indices.begin(), rank_indices.end(), compareSecond<int, int64_t>)\<close>
  orders the pairs by their second component. \<^verbatim>\<open>std::sort\<close> may reorder pairs that compare
  equal, the insertion sort of \<open>sort_key\<close> does not; the list has no two pairs with the same
  column (lemma \<open>rank_indices_cols_distinct\<close>), so both give the same list.
\<close>

definition rank_indices :: "ttmlq_args \<Rightarrow> (int \<times> int) list" where
  "rank_indices a = sort_key snd (scan_ranks (arg_A a) (getRanks (arg_A a)) [])"

definition nranks :: "ttmlq_args \<Rightarrow> int" where
  "nranks a = int (length (rank_indices a))"

text \<open>
  \<^verbatim>\<open>int nlevels = int( ceil( log2( nranks ) ) )\<close>, with the \<^verbatim>\<open>double\<close> taken as a real
  number. (For an \<^verbatim>\<open>int\<close> argument the binary logarithm is an integer exactly at the powers
  of two, and elsewhere it is further from every integer than a \<^verbatim>\<open>double\<close> can err.)
\<close>

definition nlevels :: "ttmlq_args \<Rightarrow> int" where
  "nlevels a = \<lceil>log 2 (real_of_int (nranks a))\<rceil>"

text \<open>\<^verbatim>\<open>bool descend = (side == Side::Left) != (op == Op::NoTrans);\<close>\<close>

definition descend :: "ttmlq_args \<Rightarrow> bool" where
  "descend a = ((arg_side a = Left) \<noteq> (arg_op a = NoTrans))"

text \<open>
  \<^verbatim>\<open>if (descend) step = pow(2, nlevels - 1); else step = 1;\<close> The power is a
  \<^verbatim>\<open>double\<close>, and its conversion to \<^verbatim>\<open>int\<close> drops the fraction.
\<close>

definition first_step :: "ttmlq_args \<Rightarrow> int" where
  "first_step a = (if descend a then \<lfloor>2 powr real_of_int (nlevels a - 1)\<rfloor> else 1)"

text \<open>\<^verbatim>\<open>if (side == Side::Left) k_end = C.nt(); else k_end = C.mt();\<close>\<close>

definition k_end :: "ttmlq_args \<Rightarrow> int" where
  "k_end a = (if arg_side a = Left then nt (arg_C a) else mt (arg_C a))"

subsection \<open>The loops\<close>

text \<open>\<^verbatim>\<open>rank_indices[ x ]\<close>: an index outside the vector is a fault.\<close>

definition vec_at :: "'a list \<Rightarrow> int \<Rightarrow> fault + 'a" where
  "vec_at v x = (if 0 \<le> x \<and> x < int (length v) then Inr (v ! nat x) else Inl OutOfRange)"

text \<open>
  \<^verbatim>\<open>if (side == Side::Left) { i = rank_ind; j = k; } else { i = k; j = rank_ind; }\<close>
  The source writes these lines out for each of the tiles it addresses.
\<close>

definition tile_ij :: "Side \<Rightarrow> int \<Rightarrow> int \<Rightarrow> int \<times> int" where
  "tile_ij s rank_ind k = (if s = Left then (rank_ind, k) else (k, rank_ind))"

text \<open>One piece of code after another: the first fault ends the run.\<close>

definition seq :: "fault + 'a list \<Rightarrow> fault + 'a list \<Rightarrow> fault + 'a list" where
  "seq r1 r2 =
     (case r1 of Inl f \<Rightarrow> Inl f
      | Inr xs \<Rightarrow> (case r2 of Inl f \<Rightarrow> Inl f | Inr ys \<Rightarrow> Inr (xs @ ys)))"

text \<open>
  \<^verbatim>\<open>for (x = x0; x < n; x += inc) body(x)\<close>. With an increment that is not positive the
  loop would not end: that is the fault \<open>NoProgress\<close>, after the first pass through the body.
\<close>

function for_loop :: "int \<Rightarrow> int \<Rightarrow> int \<Rightarrow> (int \<Rightarrow> fault + 'a list) \<Rightarrow> fault + 'a list" where
  "for_loop x n inc body =
     (if x < n
      then (if inc \<le> 0 then seq (body x) (Inl NoProgress)
            else seq (body x) (for_loop (x + inc) n inc body))
      else Inr [])"
  by pat_completeness auto
termination
  by (relation "measure (\<lambda>(x, n, inc, _). nat (n - x))") auto

text \<open>
  The body of the first loop over \<open>k\<close> (send, receive). \<^verbatim>\<open>index % (2*step) == 0\<close> asks
  whether the remainder is zero, which does not depend on how the division rounds.
\<close>

definition send_recv_k :: "ttmlq_args \<Rightarrow> int \<Rightarrow> int \<Rightarrow> int \<Rightarrow> int \<Rightarrow> fault + event list" where
  "send_recv_k a step index rank_ind k =
     (let (i, j) = tile_ij (arg_side a) rank_ind k in
      if tileIsLocal (arg_C a) i j then
        if 2 * step = 0 then Inl DivByZero
        else if index mod (2 * step) = 0 then
          if index + step < nranks a then
            (case vec_at (rank_indices a) (index + step) of Inl f \<Rightarrow> Inl f
             | Inr p \<Rightarrow>
                 let k_dst = snd p;
                     (i_dst, j_dst) = tile_ij (arg_side a) k_dst k;
                     dst = tileRank (arg_C a) i_dst j_dst
                 in Inr [TileGetForWriting MatC i j, TileSend i j dst (arg_tag a)])
          else Inr []
        else
          (case vec_at (rank_indices a) (index - step) of Inl f \<Rightarrow> Inl f
           | Inr p \<Rightarrow>
               let k_src = snd p;
                   (i1, j1) = tile_ij (arg_side a) k_src k;
                   src = tileRank (arg_C a) i1 j1
               in Inr [TileRecv i1 j1 src (arg_tag a)])
      else Inr [])"

text \<open>
  The body of the second loop over \<open>k\<close> (update). Each update is an OpenMP task of a task
  group that ends with the loop; the tasks of one loop work on different tiles of \<^verbatim>\<open>C\<close> and
  only read \<^verbatim>\<open>A\<close> and \<^verbatim>\<open>T\<close>. They are taken here in the order of their creation.
\<close>

definition update_k :: "ttmlq_args \<Rightarrow> int \<Rightarrow> int \<Rightarrow> int \<Rightarrow> int \<Rightarrow> fault + event list" where
  "update_k a step index rank_ind k =
     (let (i, j) = tile_ij (arg_side a) rank_ind k in
      if tileIsLocal (arg_C a) i j then
        if 2 * step = 0 then Inl DivByZero
        else if \<not> (index mod (2 * step) = 0) then
          (case vec_at (rank_indices a) (index - step) of Inl f \<Rightarrow> Inl f
           | Inr p \<Rightarrow>
               let k_src = snd p;
                   (i1, j1) = tile_ij (arg_side a) k_src k
               in Inr ([TileGetForReading MatA 0 rank_ind,
                        TileGetForReading MatT 0 rank_ind,
                        TileGetForWriting MatC i j,
                        Tpmlqt (arg_side a) (arg_op a)
                          (min (tileMb (arg_A a) 0) (tileNb (arg_A a) rank_ind))
                          (0, rank_ind) (0, rank_ind) (i1, j1) (i, j)]
                       @ (if call_tile_tick a
                          then [TileTick MatA 0 rank_ind, TileTick MatT 0 rank_ind] else [])))
        else Inr []
      else Inr [])"

text \<open>The body of the third loop over \<open>k\<close> (receive, send).\<close>

definition recv_send_k :: "ttmlq_args \<Rightarrow> int \<Rightarrow> int \<Rightarrow> int \<Rightarrow> int \<Rightarrow> fault + event list" where
  "recv_send_k a step index rank_ind k =
     (let (i, j) = tile_ij (arg_side a) rank_ind k in
      if tileIsLocal (arg_C a) i j then
        if 2 * step = 0 then Inl DivByZero
        else if index mod (2 * step) = 0 then
          if index + step < nranks a then
            (case vec_at (rank_indices a) (index + step) of Inl f \<Rightarrow> Inl f
             | Inr p \<Rightarrow>
                 let k_dst = snd p;
                     (i_dst, j_dst) = tile_ij (arg_side a) k_dst k;
                     dst = tileRank (arg_C a) i_dst j_dst
                 in Inr [AssertModified i j, TileRecv i j dst (arg_tag a)])
          else Inr []
        else
          (case vec_at (rank_indices a) (index - step) of Inl f \<Rightarrow> Inl f
           | Inr p \<Rightarrow>
               let k_src = snd p;
                   (i1, j1) = tile_ij (arg_side a) k_src k;
                   src = tileRank (arg_C a) i1 j1
               in Inr ([TileSend i1 j1 src (arg_tag a)]
                       @ (if call_tile_tick a then [TileTick MatC i1 j1] else [])))
      else Inr [])"

text \<open>
  The body of the loop \<^verbatim>\<open>for (int index = 0; index < nranks; index += step)\<close>: the three
  loops over \<open>k\<close>, one after the other.
\<close>

definition index_body :: "ttmlq_args \<Rightarrow> int \<Rightarrow> int \<Rightarrow> fault + event list" where
  "index_body a step index =
     (case vec_at (rank_indices a) index of Inl f \<Rightarrow> Inl f
      | Inr p \<Rightarrow>
          let rank_ind = snd p in
          seq (for_loop 0 (k_end a) 1 (send_recv_k a step index rank_ind))
            (seq (for_loop 0 (k_end a) 1 (update_k a step index rank_ind))
               (for_loop 0 (k_end a) 1 (recv_send_k a step index rank_ind))))"

text \<open>
  The loop \<^verbatim>\<open>for (int level = 0; level < nlevels; ++level)\<close>, by the number of levels that
  remain. It returns, for each level it ran, the value of \<^verbatim>\<open>step\<close> and the trace of the
  level. After a level, \<^verbatim>\<open>if (descend) step /= 2; else step *= 2;\<close> (\<^verbatim>\<open>step\<close> is never
  negative, so the division rounds as \<open>div\<close> does).
\<close>

primrec level_loop :: "ttmlq_args \<Rightarrow> nat \<Rightarrow> int \<Rightarrow> fault + (int \<times> event list) list" where
  "level_loop a 0 step = Inr []"
| "level_loop a (Suc remaining) step =
     (case for_loop 0 (nranks a) step (index_body a step) of Inl f \<Rightarrow> Inl f
      | Inr es \<Rightarrow>
          (case level_loop a remaining (if descend a then step div 2 else step * 2) of
             Inl f \<Rightarrow> Inl f
           | Inr levels \<Rightarrow> Inr ((step, es) # levels)))"

text \<open>
  The function: its two assertions on the shapes of \<^verbatim>\<open>A\<close> and \<^verbatim>\<open>C\<close>, then the tree.
  Without a participant the source takes the logarithm of zero and converts minus infinity
  to \<^verbatim>\<open>int\<close>, which C++ leaves undefined.
\<close>

definition ttmlq_levels :: "ttmlq_args \<Rightarrow> fault + (int \<times> event list) list" where
  "ttmlq_levels a =
     (if mt (arg_A a) \<noteq> 1 then Inl AssertFailed
      else if (if arg_side a = Left then nt (arg_A a) \<noteq> mt (arg_C a)
               else nt (arg_A a) \<noteq> nt (arg_C a)) then Inl AssertFailed
      else if nranks a = 0 then Inl Undefined
      else level_loop a (nat (nlevels a)) (first_step a))"

text \<open>The trace of the whole call.\<close>

definition ttmlq :: "ttmlq_args \<Rightarrow> fault + event list" where
  "ttmlq a =
     (case ttmlq_levels a of Inl f \<Rightarrow> Inl f | Inr levels \<Rightarrow> Inr (concat (map snd levels)))"


subsection \<open>The reduction tree in the words of its description\<close>

text \<open>
  The definitions of this subsection are not translations of code. They say, in closed
  form, what the description of the reduction tree says a participant does at one level,
  and the statements below compare the loops of \<^verbatim>\<open>ttmlq\<close> with them.
\<close>

text \<open>
  A pair \<open>(r, j)\<close> of the participant list: \<open>j\<close> is the smallest column of row 0 whose
  tile rank \<open>r\<close> owns.
\<close>

definition is_first_col :: "Matrix \<Rightarrow> int \<Rightarrow> int \<Rightarrow> bool" where
  "is_first_col M r j \<longleftrightarrow>
     0 \<le> j \<and> j < nt M \<and> tileRank M 0 j = r \<and> (\<forall>j'. 0 \<le> j' \<and> j' < j \<longrightarrow> tileRank M 0 j' \<noteq> r)"

text \<open>The panel column of the participant at position \<open>index\<close> of the list.\<close>

definition col_of :: "ttmlq_args \<Rightarrow> int \<Rightarrow> int" where
  "col_of a index = snd (rank_indices a ! nat index)"

text \<open>
  The trailing tiles of a participant: tile \<open>k\<close> of the row (or column) of \<^verbatim>\<open>C\<close> at the
  participant's panel column. \<open>local_ks\<close> lists those that the calling process owns.
\<close>

definition is_local :: "ttmlq_args \<Rightarrow> int \<Rightarrow> int \<Rightarrow> bool" where
  "is_local a rank_ind k =
     tileIsLocal (arg_C a) (fst (tile_ij (arg_side a) rank_ind k))
       (snd (tile_ij (arg_side a) rank_ind k))"

definition local_ks :: "ttmlq_args \<Rightarrow> int \<Rightarrow> int list" where
  "local_ks a rank_ind = filter (is_local a rank_ind) [0..k_end a - 1]"

text \<open>
  The partner rank of a trailing tile: the owner of tile \<open>k\<close> of \<^verbatim>\<open>C\<close> at the partner's
  panel column.
\<close>

definition partner_rank :: "ttmlq_args \<Rightarrow> int \<Rightarrow> int \<Rightarrow> int" where
  "partner_rank a partner_ind k =
     tileRank (arg_C a) (fst (tile_ij (arg_side a) partner_ind k))
       (snd (tile_ij (arg_side a) partner_ind k))"

text \<open>
  ``(a) sends its current tile state to its tree-partner rank then later receives the
  updated result back'': every local trailing tile is acquired for writing and sent, and
  after that every one of them is received back, into the same tile, from the same rank.
\<close>

definition sender_trace :: "ttmlq_args \<Rightarrow> int \<Rightarrow> int \<Rightarrow> event list" where
  "sender_trace a rank_ind partner_ind =
     concat (map (\<lambda>k. [TileGetForWriting MatC (fst (tile_ij (arg_side a) rank_ind k))
                          (snd (tile_ij (arg_side a) rank_ind k)),
                        TileSend (fst (tile_ij (arg_side a) rank_ind k))
                          (snd (tile_ij (arg_side a) rank_ind k))
                          (partner_rank a partner_ind k) (arg_tag a)])
               (local_ks a rank_ind))
     @ concat (map (\<lambda>k. [AssertModified (fst (tile_ij (arg_side a) rank_ind k))
                            (snd (tile_ij (arg_side a) rank_ind k)),
                          TileRecv (fst (tile_ij (arg_side a) rank_ind k))
                            (snd (tile_ij (arg_side a) rank_ind k))
                            (partner_rank a partner_ind k) (arg_tag a)])
                 (local_ks a rank_ind))"

text \<open>
  ``(b) receives a tile from its tree-partner, applies the opaque kernel update combining
  the panel tile with the received and local trailing tile, then sends the combined result
  back to the partner'': for every local trailing tile the partner's tile is received; then
  for every one of them the kernel runs on the panel tiles \<^verbatim>\<open>A(0, rank_ind)\<close> and
  \<^verbatim>\<open>T(0, rank_ind)\<close>, the received tile and the local tile; then every received tile goes
  back to the rank it came from.
\<close>

definition receiver_trace :: "ttmlq_args \<Rightarrow> int \<Rightarrow> int \<Rightarrow> event list" where
  "receiver_trace a rank_ind partner_ind =
     concat (map (\<lambda>k. [TileRecv (fst (tile_ij (arg_side a) partner_ind k))
                          (snd (tile_ij (arg_side a) partner_ind k))
                          (partner_rank a partner_ind k) (arg_tag a)])
               (local_ks a rank_ind))
     @ concat (map (\<lambda>k. [TileGetForReading MatA 0 rank_ind,
                          TileGetForReading MatT 0 rank_ind,
                          TileGetForWriting MatC (fst (tile_ij (arg_side a) rank_ind k))
                            (snd (tile_ij (arg_side a) rank_ind k)),
                          Tpmlqt (arg_side a) (arg_op a)
                            (min (tileMb (arg_A a) 0) (tileNb (arg_A a) rank_ind))
                            (0, rank_ind) (0, rank_ind)
                            (tile_ij (arg_side a) partner_ind k)
                            (tile_ij (arg_side a) rank_ind k)]
                         @ (if call_tile_tick a
                            then [TileTick MatA 0 rank_ind, TileTick MatT 0 rank_ind] else []))
                 (local_ks a rank_ind))
     @ concat (map (\<lambda>k. [TileSend (fst (tile_ij (arg_side a) partner_ind k))
                            (snd (tile_ij (arg_side a) partner_ind k))
                            (partner_rank a partner_ind k) (arg_tag a)]
                         @ (if call_tile_tick a
                            then [TileTick MatC (fst (tile_ij (arg_side a) partner_ind k))
                                    (snd (tile_ij (arg_side a) partner_ind k))]
                            else []))
                 (local_ks a rank_ind))"

text \<open>The tags of the transfers of a trace, in order.\<close>

primrec transfer_tags :: "event list \<Rightarrow> int list" where
  "transfer_tags [] = []"
| "transfer_tags (e # es) =
     (case e of TileSend i j dst t \<Rightarrow> t # transfer_tags es
      | TileRecv i j src t \<Rightarrow> t # transfer_tags es
      | _ \<Rightarrow> transfer_tags es)"

definition one_tag :: "int \<Rightarrow> event list \<Rightarrow> bool" where
  "one_tag t es \<longleftrightarrow> set (transfer_tags es) \<subseteq> {t}"

subsection \<open>Example inputs\<close>

text \<open>
  A row of \<open>n\<close> tiles, tile \<open>j\<close> owned by rank \<open>j\<close>, as seen by the process of rank \<open>r\<close>;
  and a call of \<^verbatim>\<open>ttmlq\<close> from the right on it, where the panel and the trailing row have
  this distribution. With \<^verbatim>\<open>Op::ConjTrans\<close> the tree is walked from the leaves to the root,
  with \<^verbatim>\<open>Op::NoTrans\<close> from the root to the leaves.
\<close>

definition row_matrix :: "int \<Rightarrow> int \<Rightarrow> Matrix" where
  "row_matrix n r =
     \<lparr>mt = 1, nt = n, tileRank = (\<lambda>i j. j), tileMb = (\<lambda>_. 4), tileNb = (\<lambda>_. 4), mpiRank = r\<rparr>"

definition row_call :: "Op \<Rightarrow> int \<Rightarrow> int \<Rightarrow> int \<Rightarrow> ttmlq_args" where
  "row_call opQ n r tg =
     \<lparr>arg_side = Right, arg_op = opQ, arg_A = row_matrix n r, arg_C = row_matrix n r,
      arg_tag = tg, arg_opts = None\<rparr>"

text \<open>A row of \<open>n\<close> tiles dealt out cyclically to \<open>q\<close> ranks.\<close>

definition cyclic_row :: "int \<Rightarrow> int \<Rightarrow> int \<Rightarrow> Matrix" where
  "cyclic_row n q r =
     \<lparr>mt = 1, nt = n, tileRank = (\<lambda>i j. j mod q), tileMb = (\<lambda>_. 4), tileNb = (\<lambda>_. 4),
      mpiRank = r\<rparr>"


section \<open>The coherency protocol\<close>

text \<open>
  The tile directory (\<^verbatim>\<open>tileGetForReading\<close>, \<^verbatim>\<open>tileGetForWriting\<close>, \<^verbatim>\<open>tileRecv\<close>,
  \<^verbatim>\<open>tileTick\<close>, \<^verbatim>\<open>tileState\<close>) is declared in headers that are not among the sources;
  only their calls in \<^verbatim>\<open>ttmlq\<close> are. Every definition of this section is therefore taken
  from the description of the protocol.
\<close>































section \<open>Several processes\<close>

text \<open>
  Every process runs \<^verbatim>\<open>ttmlq\<close> on its own and holds its own copies of tiles; tiles travel in
  messages. The transport (\<^verbatim>\<open>tileSend\<close>, \<^verbatim>\<open>tileRecv\<close>) and the kernel (\<^verbatim>\<open>tpmlqt\<close>) are
  declared in headers that are not among the sources; the definitions of this section take
  them from the description of the communication channel and of the kernel interface.
\<close>

text \<open>
  Modelled from the spec: a message on the wire, which is missing from the sources. The
  ``wire format for tile transfer'' has the coordinate, the payload and the ``tag (integer)
  for multiplexing concurrent transfers''; source and destination are those of the
  point-to-point transfer.
\<close>

record 'v message =
  msg_src :: int
  msg_dst :: int
  msg_tag :: int
  msg_i :: int
  msg_j :: int
  payload :: 'v

text \<open>
  A process: its rank, what is left of its trace, the contents of the tiles it holds, and
  whether it has stopped on an error.
\<close>

record 'v process =
  rank :: int
  todo :: "event list"
  tiles :: "Matrix_id \<times> int \<times> int \<Rightarrow> 'v"
  aborted :: bool

text \<open>
  Modelled from the spec: the kernel, which is missing from the sources: an ``opaque kernel
  update combining the panel tile with the received and local trailing tile'', which
  ``operates synchronously and in-place on already-acquired tile buffers''. It is a parameter:
  from the side, the operation, the size and the contents of \<^verbatim>\<open>A(0, rank_ind)\<close>,
  \<^verbatim>\<open>T(0, rank_ind)\<close>, \<^verbatim>\<open>C(i1, j1)\<close> and \<^verbatim>\<open>C(i, j)\<close> it gives the new contents of the two tiles
  of \<^verbatim>\<open>C\<close>. (\<^verbatim>\<open>ttmlq\<close> acquires \<^verbatim>\<open>C(i, j)\<close> for writing before the call and sends \<^verbatim>\<open>C(i1, j1)\<close>
  back as the updated tile after it.)
\<close>

type_synonym 'v kernel = "Side \<Rightarrow> Op \<Rightarrow> int \<Rightarrow> 'v \<Rightarrow> 'v \<Rightarrow> 'v \<Rightarrow> 'v \<Rightarrow> 'v \<times> 'v"

text \<open>
  Modelled from the spec: the matching of \<^verbatim>\<open>receive\<close>, which is missing from the sources:
  it ``blocks until a matching tagged message arrives''. The first message in flight from
  the source to the receiver with the tag is taken.
\<close>

primrec take_message ::
  "int \<Rightarrow> int \<Rightarrow> int \<Rightarrow> 'v message list \<Rightarrow> ('v message \<times> 'v message list) option" where
  "take_message src dst t [] = None"
| "take_message src dst t (m # ms) =
     (if msg_src m = src \<and> msg_dst m = dst \<and> msg_tag m = t then Some (m, ms)
      else (case take_message src dst t ms of None \<Rightarrow> None
            | Some (m', ms') \<Rightarrow> Some (m', m # ms')))"

text \<open>
  Modelled from the spec: the effect of \<^verbatim>\<open>tileSend\<close>, \<^verbatim>\<open>tileRecv\<close> and \<^verbatim>\<open>tpmlqt\<close> on the
  contents of tiles, which is missing from the sources. A send ``serializes the TileHandle
  buffer and transmits it''; a receive deposits the payload in the tile; ``a mismatched
  tag/coordinate pairing between sender and receiver is a protocol bug and is fatal''.
  The events of the coherency protocol do not change the contents of a tile. The result is
  one event of a process, if it can take place: \<open>None\<close> when the trace is finished or the
  receive has no message yet.
\<close>

definition exec ::
  "'v kernel \<Rightarrow> 'v process \<Rightarrow> 'v message list \<Rightarrow> ('v process \<times> 'v message list) option" where
  "exec kern p net =
     (case todo p of [] \<Rightarrow> None
      | e # es \<Rightarrow>
         (case e of
            TileSend i j dst t \<Rightarrow>
              Some (p\<lparr>todo := es\<rparr>,
                    net @ [\<lparr>msg_src = rank p, msg_dst = dst, msg_tag = t, msg_i = i, msg_j = j,
                            payload = tiles p (MatC, i, j)\<rparr>])
          | TileRecv i j src t \<Rightarrow>
              (case take_message src (rank p) t net of None \<Rightarrow> None
               | Some (m, net') \<Rightarrow>
                   if msg_i m = i \<and> msg_j m = j
                   then Some (p\<lparr>todo := es, tiles := (tiles p)((MatC, i, j) := payload m)\<rparr>, net')
                   else Some (p\<lparr>todo := [], aborted := True\<rparr>, net'))
          | Tpmlqt s opQ l ta tt c1 c2 \<Rightarrow>
              Some (p\<lparr>todo := es,
                      tiles := (tiles p)
                        ((MatC, c1) := fst (kern s opQ l (tiles p (MatA, ta)) (tiles p (MatT, tt))
                                            (tiles p (MatC, c1)) (tiles p (MatC, c2))),
                         (MatC, c2) := snd (kern s opQ l (tiles p (MatA, ta)) (tiles p (MatT, tt))
                                            (tiles p (MatC, c1)) (tiles p (MatC, c2))))\<rparr>,
                    net)
          | _ \<Rightarrow> Some (p\<lparr>todo := es\<rparr>, net)))"

text \<open>One step of the system: the first process of the list that can move, moves.\<close>

primrec step_world ::
  "'v kernel \<Rightarrow> 'v process list \<Rightarrow> 'v process list \<Rightarrow> 'v message list
     \<Rightarrow> ('v process list \<times> 'v message list) option" where
  "step_world kern passed [] net = None"
| "step_world kern passed (p # ps) net =
     (case exec kern p net of
        Some (p', net') \<Rightarrow> Some (passed @ p' # ps, net')
      | None \<Rightarrow> step_world kern (passed @ [p]) ps net)"

text \<open>At most \<open>n\<close> steps; the run stops when no process can move.\<close>

primrec run_world ::
  "nat \<Rightarrow> 'v kernel \<Rightarrow> 'v process list \<times> 'v message list
     \<Rightarrow> 'v process list \<times> 'v message list" where
  "run_world 0 kern w = w"
| "run_world (Suc n) kern w =
     (case step_world kern [] (fst w) (snd w) of None \<Rightarrow> w
      | Some w' \<Rightarrow> run_world n kern w')"

text \<open>The process that makes the call \<open>a\<close>, holding tiles with contents \<open>c\<close>.\<close>

definition process_of :: "ttmlq_args \<Rightarrow> (Matrix_id \<times> int \<times> int \<Rightarrow> 'v) \<Rightarrow> 'v process" where
  "process_of a c =
     (case ttmlq a of
        Inr es \<Rightarrow> \<lparr>rank = mpiRank (arg_C a), todo = es, tiles = c, aborted = False\<rparr>
      | Inl f \<Rightarrow> \<lparr>rank = mpiRank (arg_C a), todo = [], tiles = c, aborted = True\<rparr>)"

text \<open>
  The scenario: four ranks, one tile of the panel and one tile of the trailing row each, the
  tree walked from the leaves to the root, with tag 5. \<open>c r\<close> are the contents of the tiles of
  rank \<open>r\<close> before the reduction, \<open>order\<close> is the order in which the processes get their turn.
\<close>

definition scenario ::
  "'v kernel \<Rightarrow> int list \<Rightarrow> (int \<Rightarrow> Matrix_id \<times> int \<times> int \<Rightarrow> 'v)
     \<Rightarrow> 'v process list \<times> 'v message list" where
  "scenario kern order c =
     run_world 64 kern (map (\<lambda>r. process_of (row_call ConjTrans 4 r 5) (c r)) order, [])"

text \<open>
  A kernel that records what it was applied to: the contents of a tile are the original
  contents of a tile of a rank, or the first or second result of the kernel.
\<close>

datatype tile_value =
    Original int Matrix_id int int
  | Updated_first Side Op int tile_value tile_value tile_value tile_value
  | Updated_second Side Op int tile_value tile_value tile_value tile_value

definition symbolic_kernel :: "tile_value kernel" where
  "symbolic_kernel s opQ l v t c1 c2 =
     (Updated_first s opQ l v t c1 c2, Updated_second s opQ l v t c1 c2)"

definition originals :: "int \<Rightarrow> Matrix_id \<times> int \<times> int \<Rightarrow> tile_value" where
  "originals r = (\<lambda>(m, i, j). Original r m i j)"


section \<open>Results on BandMatrix\<close>

text \<open>
  Claim C9. \<open>lowerBandwidth\<close> returns \<open>kl\<close> when the view is not transposed and \<open>ku\<close>
  otherwise, \<open>upperBandwidth\<close> the other way round; each setter writes the field its
  getter reads and leaves the other field and the transposition alone; so a value set is
  the value read back, for both bandwidths and every transposition.
\<close>

theorem bandwidth_accessors:
  "lowerBandwidth M = (if op M = NoTrans then kl M else ku M)
   \<and> upperBandwidth M = (if op M = NoTrans then ku M else kl M)
   \<and> set_lowerBandwidth k M = (if op M = NoTrans then M\<lparr>kl := k\<rparr> else M\<lparr>ku := k\<rparr>)
   \<and> set_upperBandwidth k M = (if op M = NoTrans then M\<lparr>ku := k\<rparr> else M\<lparr>kl := k\<rparr>)
   \<and> lowerBandwidth (set_lowerBandwidth k M) = k
   \<and> upperBandwidth (set_upperBandwidth k M) = k
   \<and> op (set_lowerBandwidth k M) = op M
   \<and> op (set_upperBandwidth k M) = op M"
  by (simp add: lowerBandwidth_def upperBandwidth_def
      set_lowerBandwidth_def set_upperBandwidth_def)


section \<open>Results on geset\<close>

lemma cell_store: "cell (store p v mem) q = (if q = p then v else cell mem q)"
  by (simp add: store_def)

lemma writes_store: "writes (store p v mem) = writes mem @ [p]"
  by (simp add: store_def)

declare geset_j.simps [simp del] geset_i.simps [simp del] batch_geset_k.simps [simp del]

text \<open>The writes of one row and of the loop nest, as lists of (offset, value).\<close>

definition row_writes :: "int \<Rightarrow> int \<Rightarrow> int \<Rightarrow> 'a \<Rightarrow> 'a \<Rightarrow> int \<Rightarrow> int \<Rightarrow> (int \<times> 'a) list" where
  "row_writes i j n off d A lda =
     map (\<lambda>j'. (A + i + j' * lda, if j' \<noteq> i then off else d)) [j..n - 1]"

definition nest_writes :: "int \<Rightarrow> int \<Rightarrow> int \<Rightarrow> 'a \<Rightarrow> 'a \<Rightarrow> int \<Rightarrow> int \<Rightarrow> (int \<times> 'a) list" where
  "nest_writes i m n off d A lda =
     map (\<lambda>(i', j'). (A + i' + j' * lda, if j' \<noteq> i' then off else d))
       (List.product [i..m - 1] [0..n - 1])"

definition replay :: "(int \<times> 'a) list \<Rightarrow> 'a memory \<Rightarrow> 'a memory" where
  "replay ws mem = fold (\<lambda>(p, v). store p v) ws mem"

lemma replay_Nil: "replay [] mem = mem"
  by (simp add: replay_def)

lemma replay_Cons: "replay ((p, v) # ws) mem = replay ws (store p v mem)"
  by (simp add: replay_def)

lemma replay_append: "replay (ws @ ws') mem = replay ws' (replay ws mem)"
  by (simp add: replay_def)

lemma geset_j_replay:
  "geset_j i j n off d A lda mem = replay (row_writes i j n off d A lda) mem"
proof (induction i j n off d A lda mem rule: geset_j.induct)
  case (1 i j n off d A lda mem)
  show ?case
  proof (cases "j < n")
    case True
    then have "[j..n - 1] = j # [j + 1..n - 1]" by (simp add: upto_rec1)
    with True 1 show ?thesis
      by (subst geset_j.simps) (simp add: row_writes_def replay_Cons)
  next
    case False
    then show ?thesis
      by (subst geset_j.simps) (simp add: row_writes_def replay_Nil)
  qed
qed

lemma geset_i_replay:
  "geset_i i m n off d A lda mem = replay (nest_writes i m n off d A lda) mem"
proof (induction i m n off d A lda mem rule: geset_i.induct)
  case (1 i m n off d A lda mem)
  show ?case
  proof (cases "i < m")
    case True
    then have "[i..m - 1] = i # [i + 1..m - 1]" by (simp add: upto_rec1)
    with True 1 show ?thesis
      by (subst geset_i.simps)
        (simp add: nest_writes_def replay_append geset_j_replay row_writes_def comp_def)
  next
    case False
    then show ?thesis
      by (subst geset_i.simps) (simp add: nest_writes_def replay_Nil)
  qed
qed

lemma writes_replay: "writes (replay ws mem) = writes mem @ map fst ws"
  by (induction ws arbitrary: mem) (auto simp: replay_Nil replay_Cons writes_store)

lemma cell_replay_notin: "p \<notin> fst ` set ws \<Longrightarrow> cell (replay ws mem) p = cell mem p"
  by (induction ws arbitrary: mem) (auto simp: replay_Nil replay_Cons cell_store)

lemma cell_replay_in:
  "distinct (map fst ws) \<Longrightarrow> (p, v) \<in> set ws \<Longrightarrow> cell (replay ws mem) p = v"
proof (induction ws arbitrary: mem)
  case Nil
  then show ?case by simp
next
  case (Cons w ws)
  obtain q u where w: "w = (q, u)" by (cases w)
  show ?case
  proof (cases "(p, v) = w")
    case True
    with Cons.prems w have "p \<notin> fst ` set ws" by auto
    with True w show ?thesis by (simp add: replay_Cons cell_replay_notin cell_store)
  next
    case False
    with Cons.prems have "(p, v) \<in> set ws" "distinct (map fst ws)" by auto
    then have "cell (replay ws (store q u mem)) p = v" by (rule Cons.IH [rotated])
    with w show ?thesis by (simp add: replay_Cons)
  qed
qed

lemma offset_inj:
  assumes "0 \<le> i" "i < lda" "0 \<le> i'" "i' < lda" "i + j * lda = i' + j' * lda"
  shows "i = i' \<and> j = (j'::int)"
proof -
  have "(i + j * lda) mod lda = (i' + j' * lda) mod lda"
    using assms(5) by simp
  then have "i mod lda = i' mod lda" by simp
  with assms have i: "i = i'" by simp
  with assms have "j * lda = j' * lda" by simp
  with assms i show ?thesis by auto
qed

lemma geset_writes_distinct:
  assumes "0 \<le> i0" "m \<le> lda"
  shows "distinct (map fst (nest_writes i0 m n off d A lda))"
proof -
  have "inj_on (\<lambda>(i', j'). A + i' + j' * lda) (set [i0..m - 1] \<times> set [0..n - 1])"
  proof (rule inj_onI, clarify)
    fix i j i' j'
    assume "i \<in> set [i0..m - 1]" "i' \<in> set [i0..m - 1]" "A + i + j * lda = A + i' + j' * lda"
    with assms have "0 \<le> i" "i < lda" "0 \<le> i'" "i' < lda" "i + j * lda = i' + j' * lda"
      by auto
    then show "i = i' \<and> j = j'" by (rule offset_inj)
  qed
  then have "distinct (map (\<lambda>(i', j'). A + i' + j' * lda) (List.product [i0..m - 1] [0..n - 1]))"
    by (simp add: distinct_map distinct_product)
  moreover have "map fst (nest_writes i0 m n off d A lda)
      = map (\<lambda>(i', j'). A + i' + j' * lda) (List.product [i0..m - 1] [0..n - 1])"
    by (simp add: nest_writes_def comp_def case_prod_unfold)
  ultimately show ?thesis by simp
qed

lemma geset_i_cell_in:
  assumes "0 \<le> i" "i < m" "0 \<le> j" "j < n" "m \<le> lda"
  shows "cell (geset_i 0 m n off d A lda mem) (A + i + j * lda) = (if i = j then d else off)"
proof -
  have "(A + i + j * lda, if j \<noteq> i then off else d) \<in> set (nest_writes 0 m n off d A lda)"
    unfolding nest_writes_def using assms by (force simp: image_iff)
  then have "cell (replay (nest_writes 0 m n off d A lda) mem) (A + i + j * lda)
      = (if j \<noteq> i then off else d)"
    using geset_writes_distinct [of 0 m lda n off d A] assms by (intro cell_replay_in) simp_all
  then show ?thesis by (auto simp: geset_i_replay)
qed

lemma geset_i_cell_out:
  assumes "\<forall>i j. 0 \<le> i \<and> i < m \<and> 0 \<le> j \<and> j < n \<longrightarrow> p \<noteq> A + i + j * lda"
  shows "cell (geset_i 0 m n off d A lda mem) p = cell mem p"
proof -
  have "p \<notin> fst ` set (nest_writes 0 m n off d A lda)"
  proof
    assume "p \<in> fst ` set (nest_writes 0 m n off d A lda)"
    then obtain i j where "0 \<le> i" "i < m" "0 \<le> j" "j < n" "p = A + i + j * lda"
      unfolding nest_writes_def by auto
    with assms show False by blast
  qed
  then show ?thesis by (simp add: geset_i_replay cell_replay_notin)
qed

text \<open>
  Claim C10. After \<open>geset\<close> with \<open>0 \<le> m \<le> lda\<close>, the element at row \<open>i\<close> and column
  \<open>j\<close> of the tile, for \<open>0 \<le> i < m\<close> and \<open>0 \<le> j < n\<close>, is \<open>diag_value\<close> when \<open>i = j\<close>
  and \<open>offdiag_value\<close> otherwise; every other cell of memory keeps its value; and when
  \<open>m = 0\<close> or \<open>n = 0\<close> (or the batch is empty, in the batched variant) the memory and its
  write log are returned as they were: nothing is written.
\<close>

theorem geset_postcondition:
  assumes "0 \<le> m" and "m \<le> lda"
  shows "(\<forall>i j. 0 \<le> i \<and> i < m \<and> 0 \<le> j \<and> j < n \<longrightarrow>
            cell (geset m n offdiag_value diag_value A lda mem) (A + i + j * lda)
              = (if i = j then diag_value else offdiag_value))
       \<and> (\<forall>p. (\<forall>i j. 0 \<le> i \<and> i < m \<and> 0 \<le> j \<and> j < n \<longrightarrow> p \<noteq> A + i + j * lda) \<longrightarrow>
            cell (geset m n offdiag_value diag_value A lda mem) p = cell mem p)
       \<and> (m = 0 \<or> n = 0 \<longrightarrow> geset m n offdiag_value diag_value A lda mem = mem)
       \<and> (m = 0 \<or> n = 0 \<or> batch_count = 0 \<longrightarrow>
            batch_geset m n offdiag_value diag_value Aarray lda batch_count mem = mem)"
proof (intro conjI allI impI)
  fix i j
  assume ij: "0 \<le> i \<and> i < m \<and> 0 \<le> j \<and> j < n"
  then have "m \<noteq> 0" "n \<noteq> 0" by auto
  then show "cell (geset m n offdiag_value diag_value A lda mem) (A + i + j * lda)
      = (if i = j then diag_value else offdiag_value)"
    using ij assms(2) by (simp add: geset_def geset_i_cell_in)
next
  fix p
  assume "\<forall>i j. 0 \<le> i \<and> i < m \<and> 0 \<le> j \<and> j < n \<longrightarrow> p \<noteq> A + i + j * lda"
  then show "cell (geset m n offdiag_value diag_value A lda mem) p = cell mem p"
    by (simp add: geset_def geset_i_cell_out)
next
  assume "m = 0 \<or> n = 0"
  then show "geset m n offdiag_value diag_value A lda mem = mem"
    by (simp add: geset_def)
next
  assume "m = 0 \<or> n = 0 \<or> batch_count = 0"
  then show "batch_geset m n offdiag_value diag_value Aarray lda batch_count mem = mem"
    by (auto simp: batch_geset_def)
qed

text \<open>
  The claim at a 2-by-2 tile in a column-major array of leading dimension 3: the four
  cells of the tile are set, the padding cell at offset 2 is not, and the empty cases
  return the memory untouched.
\<close>

theorem geset_postcondition_witness:
  "cell (geset 2 2 (7::nat) 9 0 3 \<lparr>cell = (\<lambda>_. 0), writes = []\<rparr>) 0 = 9
   \<and> cell (geset 2 2 (7::nat) 9 0 3 \<lparr>cell = (\<lambda>_. 0), writes = []\<rparr>) 1 = 7
   \<and> cell (geset 2 2 (7::nat) 9 0 3 \<lparr>cell = (\<lambda>_. 0), writes = []\<rparr>) 3 = 7
   \<and> cell (geset 2 2 (7::nat) 9 0 3 \<lparr>cell = (\<lambda>_. 0), writes = []\<rparr>) 4 = 9
   \<and> cell (geset 2 2 (7::nat) 9 0 3 \<lparr>cell = (\<lambda>_. 0), writes = []\<rparr>) 2 = 0
   \<and> geset 0 2 (7::nat) 9 0 3 \<lparr>cell = (\<lambda>_. 0), writes = []\<rparr> = \<lparr>cell = (\<lambda>_. 0), writes = []\<rparr>
   \<and> batch_geset 2 2 (7::nat) 9 (\<lambda>k. 10 * k) 3 0 \<lparr>cell = (\<lambda>_. 0), writes = []\<rparr>
       = \<lparr>cell = (\<lambda>_. 0), writes = []\<rparr>"
proof -
  let ?mem = "\<lparr>cell = (\<lambda>_. 0::nat), writes = []\<rparr>"
  have pre: "(0::int) \<le> 2" "(2::int) \<le> 3" by simp_all
  note post = geset_postcondition [OF pre, of 2 7 9 0 ?mem 0 "\<lambda>k. 10 * k"]
  note inside = post [THEN conjunct1, rule_format]
  note outside = post [THEN conjunct2, THEN conjunct1, rule_format]
  have "cell (geset 2 2 (7::nat) 9 0 3 ?mem) (0 + 0 + 0 * 3) = 9"
    using inside [of 0 0] by simp
  moreover have "cell (geset 2 2 (7::nat) 9 0 3 ?mem) (0 + 1 + 0 * 3) = 7"
    using inside [of 1 0] by simp
  moreover have "cell (geset 2 2 (7::nat) 9 0 3 ?mem) (0 + 0 + 1 * 3) = 7"
    using inside [of 0 1] by simp
  moreover have "cell (geset 2 2 (7::nat) 9 0 3 ?mem) (0 + 1 + 1 * 3) = 9"
    using inside [of 1 1] by simp
  moreover have "cell (geset 2 2 (7::nat) 9 0 3 ?mem) 2 = 0"
  proof -
    have "\<forall>i j. 0 \<le> i \<and> i < 2 \<and> 0 \<le> j \<and> j < 2 \<longrightarrow> (2::int) \<noteq> 0 + i + j * 3"
      by presburger
    then show ?thesis using outside [of 2] by simp
  qed
  moreover have "geset 0 2 (7::nat) 9 0 3 ?mem = ?mem"
    using geset_postcondition [of 0 3 2 7 9 0 ?mem 0 "\<lambda>k. 10 * k"] by simp
  moreover have "batch_geset 2 2 (7::nat) 9 (\<lambda>k. 10 * k) 3 0 ?mem = ?mem"
    using post by simp
  ultimately show ?thesis by simp
qed



section \<open>Results on ttmlq\<close>

subsection \<open>Participant list, loops and levels\<close>

declare first_col.simps [simp del] for_loop.simps [simp del]

lemma first_col_find:
  "first_col M r j n acc =
     acc @ (case find (\<lambda>j'. tileRank M 0 j' = r) [j..n - 1] of
              None \<Rightarrow> [] | Some j' \<Rightarrow> [(r, j')])"
proof (induction M r j n acc rule: first_col.induct)
  case (1 M r j n acc)
  show ?case
  proof (cases "j < n")
    case True
    then have "[j..n - 1] = j # [j + 1..n - 1]" by (simp add: upto_rec1)
    with True 1 show ?thesis by (subst first_col.simps) simp
  next
    case False
    then show ?thesis by (subst first_col.simps) simp
  qed
qed

lemma scan_ranks_concat:
  "scan_ranks M rs acc = acc @ concat (map (\<lambda>r. first_col M r 0 (nt M) []) rs)"
proof (induction rs arbitrary: acc)
  case Nil
  show ?case by simp
next
  case (Cons r rs)
  have "first_col M r 0 (nt M) acc = acc @ first_col M r 0 (nt M) []"
    by (simp add: first_col_find)
  then show ?case by (simp add: Cons)
qed

lemma find_upto_Some:
  "find P [0..n - 1] = Some j \<longleftrightarrow> 0 \<le> j \<and> j < n \<and> P j \<and> (\<forall>j'. 0 \<le> j' \<and> j' < j \<longrightarrow> \<not> P j')"
proof -
  have nth: "\<And>k. k < nat n \<Longrightarrow> [0..n - 1] ! k = int k"
    by (simp add: nth_upto)
  have len: "length [0..n - 1] = nat n" by simp
  show ?thesis
  proof
    assume "find P [0..n - 1] = Some j"
    then obtain k where k: "k < nat n" "P ([0..n - 1] ! k)" "j = [0..n - 1] ! k"
      "\<forall>k' < k. \<not> P ([0..n - 1] ! k')"
      unfolding find_Some_iff len by blast
    then have j: "j = int k" using nth by simp
    have "\<not> P j'" if "0 \<le> j'" "j' < j" for j'
    proof -
      from that j k have "nat j' < k" "nat j' < nat n" by auto
      with k(4) nth [of "nat j'"] that show ?thesis by auto
    qed
    with k j nth show "0 \<le> j \<and> j < n \<and> P j \<and> (\<forall>j'. 0 \<le> j' \<and> j' < j \<longrightarrow> \<not> P j')"
      by auto
  next
    assume a: "0 \<le> j \<and> j < n \<and> P j \<and> (\<forall>j'. 0 \<le> j' \<and> j' < j \<longrightarrow> \<not> P j')"
    then have "nat j < nat n" "[0..n - 1] ! nat j = j" using nth [of "nat j"] by auto
    moreover have "\<forall>k' < nat j. \<not> P ([0..n - 1] ! k')"
    proof (intro allI impI)
      fix k' assume "k' < nat j"
      with a have "k' < nat n" "int k' < j" by auto
      with a nth [of k'] show "\<not> P ([0..n - 1] ! k')" by auto
    qed
    ultimately show "find P [0..n - 1] = Some j"
      unfolding find_Some_iff len using a by (intro exI [of _ "nat j"]) auto
  qed
qed

lemma is_first_col_unique: "is_first_col M r j \<Longrightarrow> is_first_col M r j' \<Longrightarrow> j = j'"
  unfolding is_first_col_def by (metis linorder_neqE_linordered_idom)

lemma is_first_col_rank: "is_first_col M r j \<Longrightarrow> is_first_col M r' j \<Longrightarrow> r = r'"
  unfolding is_first_col_def by simp

lemma first_col_set:
  "set (first_col M r 0 (nt M) []) = {(r', j). r' = r \<and> is_first_col M r j}"
proof (cases "find (\<lambda>j'. tileRank M 0 j' = r) [0..nt M - 1]")
  case None
  then have "\<not> is_first_col M r j" for j
    unfolding is_first_col_def find_None_iff by auto
  with None show ?thesis by (auto simp: first_col_find)
next
  case (Some j)
  then have fc: "is_first_col M r j" unfolding is_first_col_def find_upto_Some by simp
  have "{(r', j'). r' = r \<and> is_first_col M r j'} = {(r, j)}"
    using fc by (auto dest: is_first_col_unique [OF fc])
  moreover have "first_col M r 0 (nt M) [] = [(r, j)]"
    using Some by (simp add: first_col_find)
  ultimately show ?thesis by simp
qed

lemma getRanks_row:
  "mt M = 1 \<Longrightarrow> set (getRanks M) = tileRank M 0 ` {0..nt M - 1}" "distinct (getRanks M)"
   "sorted (getRanks M)"
  by (auto simp: getRanks_def image_iff)

lemma set_scan_ranks:
  "set (scan_ranks M rs []) = {(r, j). r \<in> set rs \<and> is_first_col M r j}"
  by (auto simp: scan_ranks_concat first_col_set)

lemma fst_scan_ranks:
  "map fst (scan_ranks M rs []) =
     filter (\<lambda>r. find (\<lambda>j'. tileRank M 0 j' = r) [0..nt M - 1] \<noteq> None) rs"
  unfolding scan_ranks_concat
  by (induction rs) (auto simp: first_col_find split: option.split)

lemma distinct_scan_ranks: "distinct rs \<Longrightarrow> distinct (map fst (scan_ranks M rs []))"
  by (simp add: fst_scan_ranks)

lemma distinct_snd_scan_ranks:
  assumes "distinct rs"
  shows "distinct (map snd (scan_ranks M rs []))"
proof -
  have "inj_on snd (set (scan_ranks M rs []))"
    by (auto simp: inj_on_def set_scan_ranks dest: is_first_col_rank)
  moreover have "distinct (scan_ranks M rs [])"
    using distinct_scan_ranks [OF assms] by (simp add: distinct_map)
  ultimately show ?thesis by (simp add: distinct_map)
qed

lemma set_rank_indices:
  assumes "mt (arg_A a) = 1"
  shows "set (rank_indices a) = {(r, j). is_first_col (arg_A a) r j}"
proof -
  have "r \<in> set (getRanks (arg_A a))" if "is_first_col (arg_A a) r j" for r j
    using that assms unfolding is_first_col_def by (auto simp: getRanks_row(1))
  then show ?thesis by (auto simp: rank_indices_def set_scan_ranks)
qed

lemma rank_indices_ranks_distinct: "distinct (map fst (rank_indices a))"
proof -
  have "distinct (getRanks (arg_A a))" by (simp add: getRanks_def)
  then have "distinct (map fst (scan_ranks (arg_A a) (getRanks (arg_A a)) []))"
    by (rule distinct_scan_ranks)
  then have "distinct (scan_ranks (arg_A a) (getRanks (arg_A a)) [])"
    by (simp add: distinct_map)
  moreover have "inj_on fst (set (scan_ranks (arg_A a) (getRanks (arg_A a)) []))"
    by (auto simp: inj_on_def set_scan_ranks dest: is_first_col_unique)
  ultimately show ?thesis
    by (simp add: rank_indices_def distinct_map)
qed

lemma rank_indices_cols_distinct: "distinct (map snd (rank_indices a))"
proof -
  have "distinct (getRanks (arg_A a))" by (simp add: getRanks_def)
  then have "distinct (map snd (scan_ranks (arg_A a) (getRanks (arg_A a)) []))"
    by (rule distinct_snd_scan_ranks)
  then show ?thesis
    by (simp add: rank_indices_def distinct_map)
qed

lemma rank_indices_sorted: "sorted (map snd (rank_indices a))"
  by (simp add: rank_indices_def)

lemma rank_indices_strict_sorted: "sorted_wrt (<) (map snd (rank_indices a))"
  using rank_indices_sorted rank_indices_cols_distinct
  by (simp add: strict_sorted_iff)

lemma rank_indices_same_distribution:
  assumes "mt (arg_A b) = mt (arg_A a)" "nt (arg_A b) = nt (arg_A a)"
    "tileRank (arg_A b) = tileRank (arg_A a)"
  shows "rank_indices b = rank_indices a"
proof -
  have fc: "first_col (arg_A b) r j n acc = first_col (arg_A a) r j n acc" for r j n acc
    by (simp add: first_col_find assms)
  have "scan_ranks (arg_A b) rs acc = scan_ranks (arg_A a) rs acc" for rs acc
    by (induction rs arbitrary: acc) (simp_all add: fc assms)
  moreover have "getRanks (arg_A b) = getRanks (arg_A a)"
    by (simp add: getRanks_def assms)
  ultimately show ?thesis by (simp add: rank_indices_def)
qed

lemma ranks_of_rank_indices:
  assumes "mt (arg_A a) = 1"
  shows "fst ` set (rank_indices a) = tileRank (arg_A a) 0 ` {0..nt (arg_A a) - 1}"
proof -
  let ?M = "arg_A a"
  have "find (\<lambda>j'. tileRank ?M 0 j' = r) [0..nt ?M - 1] \<noteq> None" if "r \<in> set (getRanks ?M)" for r
    using that assms by (auto simp: getRanks_row(1) find_None_iff)
  then have "map fst (scan_ranks ?M (getRanks ?M) []) = getRanks ?M"
    unfolding fst_scan_ranks by (simp add: filter_id_conv)
  then have "fst ` set (scan_ranks ?M (getRanks ?M) []) = set (getRanks ?M)"
    by (metis set_map)
  then show ?thesis
    using assms by (simp add: rank_indices_def getRanks_row(1))
qed

lemma seq_Inr [simp]: "seq (Inr xs) (Inr ys) = Inr (xs @ ys)"
  by (simp add: seq_def)

lemma seq_Inl [simp]: "seq (Inl f) r = Inl f"
  by (simp add: seq_def)

lemma seq_Inr_Inl [simp]: "seq (Inr xs) (Inl f) = Inl f"
  by (simp add: seq_def)

lemma seq_eq_Inr:
  "seq r1 r2 = Inr es \<longleftrightarrow> (\<exists>xs ys. r1 = Inr xs \<and> r2 = Inr ys \<and> es = xs @ ys)"
  by (auto simp: seq_def split: sum.splits)

lemma vec_at_Inr: "0 \<le> x \<Longrightarrow> x < int (length v) \<Longrightarrow> vec_at v x = Inr (v ! nat x)"
  by (simp add: vec_at_def)

lemma for_loop_invariant:
  assumes "for_loop x n inc body = Inr es"
    and "P []"
    and "\<And>xs ys. P xs \<Longrightarrow> P ys \<Longrightarrow> P (xs @ ys)"
    and "\<And>y es'. x \<le> y \<Longrightarrow> y < n \<Longrightarrow> 0 < inc \<Longrightarrow> inc dvd (y - x) \<Longrightarrow> body y = Inr es' \<Longrightarrow> P es'"
  shows "P es"
  using assms(1,4)
proof (induction x n inc body arbitrary: es rule: for_loop.induct)
  case (1 x n inc body)
  show ?case
  proof (cases "x < n")
    case False
    with "1.prems"(1) assms(2) show ?thesis by (simp add: for_loop.simps [of x])
  next
    case True
    show ?thesis
    proof (cases "inc \<le> 0")
      case True
      with \<open>x < n\<close> "1.prems"(1) show ?thesis
        by (simp add: for_loop.simps [of x] seq_def split: sum.splits)
    next
      case False
      with \<open>x < n\<close> "1.prems"(1) obtain xs ys where
        xs: "body x = Inr xs" and ys: "for_loop (x + inc) n inc body = Inr ys" and es: "es = xs @ ys"
        by (auto simp: for_loop.simps [of x] seq_eq_Inr)
      have "P xs" using "1.prems"(2) [of x xs] \<open>x < n\<close> xs False by simp
      moreover have "P ys"
      proof (rule "1.IH" [OF \<open>x < n\<close> False ys])
        fix y es' assume y: "x + inc \<le> y" "y < n" "0 < inc" "inc dvd y - (x + inc)" "body y = Inr es'"
        have "y - x = (y - (x + inc)) + inc" by simp
        with y(4) have "inc dvd (y - x)" by (metis dvd_add_triv_right_iff)
        with y False show "P es'" by (intro "1.prems"(2) [of y es']) auto
      qed
      ultimately show ?thesis using es assms(3) by simp
    qed
  qed
qed

lemma for_loop_total:
  assumes "0 < inc"
    and "\<And>y. x \<le> y \<Longrightarrow> y < n \<Longrightarrow> inc dvd (y - x) \<Longrightarrow> \<exists>es. body y = Inr es"
  shows "\<exists>es. for_loop x n inc body = Inr es"
  using assms
proof (induction x n inc body rule: for_loop.induct)
  case (1 x n inc body)
  show ?case
  proof (cases "x < n")
    case False
    then show ?thesis by (simp add: for_loop.simps [of x])
  next
    case True
    from "1.prems"(2) [of x] True obtain xs where xs: "body x = Inr xs" by auto
    have "\<exists>es. for_loop (x + inc) n inc body = Inr es"
    proof (rule "1.IH")
      show "x < n" by fact
      show "\<not> inc \<le> 0" "0 < inc" using "1.prems"(1) by simp_all
      fix y assume y: "x + inc \<le> y" "y < n" "inc dvd y - (x + inc)"
      then have "inc dvd (y - x)"
        by (metis add_diff_cancel_left' diff_diff_eq dvd_add_triv_right_iff dvd_diff_commute
            diff_add_cancel dvd_add_right_iff dvd_refl)
      with y "1.prems" show "\<exists>es. body y = Inr es" by (intro "1.prems"(2)) auto
    qed
    then obtain ys where "for_loop (x + inc) n inc body = Inr ys" ..
    with True xs "1.prems"(1) show ?thesis by (simp add: for_loop.simps [of x])
  qed
qed

lemma for_loop_unit:
  assumes "\<And>k. x \<le> k \<Longrightarrow> k < n \<Longrightarrow> body k = Inr (g k)"
  shows "for_loop x n 1 body = Inr (concat (map g [x..n - 1]))"
  using assms
proof (induction x n "1::int" body rule: for_loop.induct)
  case (1 x n body)
  show ?case
  proof (cases "x < n")
    case False
    then show ?thesis by (simp add: for_loop.simps [of x])
  next
    case True
    then have up: "[x..n - 1] = x # [x + 1..n - 1]" by (simp add: upto_rec1)
    have "for_loop (x + 1) n 1 body = Inr (concat (map g [x + 1..n - 1]))"
      using True "1.prems" by (intro "1.hyps") auto
    with True "1.prems" [of x] up show ?thesis by (simp add: for_loop.simps [of x])
  qed
qed

lemma concat_map_if:
  "concat (map (\<lambda>k. if P k then f k else []) xs) = concat (map f (filter P xs))"
  by (induction xs) auto


lemma receiver_has_partner:
  assumes "0 < step" "0 \<le> index" "step dvd index" "index mod (2 * step) \<noteq> 0"
  shows "step \<le> (index::int)"
proof -
  from assms(3) obtain q where q: "index = step * q" ..
  with assms(1,2) have "0 \<le> q" by (simp add: zero_le_mult_iff)
  moreover from q assms(4) have "q \<noteq> 0" by auto
  ultimately have "1 \<le> q" by simp
  with assms(1) q show ?thesis by (simp add: mult_le_cancel_left1)
qed

lemma send_recv_k_sender:
  assumes "step \<noteq> 0" "index mod (2 * step) = 0" "index + step < nranks a"
    "vec_at (rank_indices a) (index + step) = Inr p"
  shows "send_recv_k a step index r k =
     Inr (if is_local a r k
          then [TileGetForWriting MatC (fst (tile_ij (arg_side a) r k))
                  (snd (tile_ij (arg_side a) r k)),
                TileSend (fst (tile_ij (arg_side a) r k)) (snd (tile_ij (arg_side a) r k))
                  (partner_rank a (snd p) k) (arg_tag a)]
          else [])"
  using assms
  by (simp add: send_recv_k_def is_local_def partner_rank_def case_prod_unfold Let_def)

lemma recv_send_k_sender:
  assumes "step \<noteq> 0" "index mod (2 * step) = 0" "index + step < nranks a"
    "vec_at (rank_indices a) (index + step) = Inr p"
  shows "recv_send_k a step index r k =
     Inr (if is_local a r k
          then [AssertModified (fst (tile_ij (arg_side a) r k))
                  (snd (tile_ij (arg_side a) r k)),
                TileRecv (fst (tile_ij (arg_side a) r k)) (snd (tile_ij (arg_side a) r k))
                  (partner_rank a (snd p) k) (arg_tag a)]
          else [])"
  using assms
  by (simp add: recv_send_k_def is_local_def partner_rank_def case_prod_unfold Let_def)

lemma update_k_even:
  assumes "step \<noteq> 0" "index mod (2 * step) = 0"
  shows "update_k a step index r k = Inr []"
  using assms by (simp add: update_k_def case_prod_unfold Let_def)

lemma send_recv_k_skip:
  assumes "step \<noteq> 0" "index mod (2 * step) = 0" "\<not> index + step < nranks a"
  shows "send_recv_k a step index r k = Inr []"
  using assms by (simp add: send_recv_k_def case_prod_unfold Let_def)

lemma recv_send_k_skip:
  assumes "step \<noteq> 0" "index mod (2 * step) = 0" "\<not> index + step < nranks a"
  shows "recv_send_k a step index r k = Inr []"
  using assms by (simp add: recv_send_k_def case_prod_unfold Let_def)

lemma send_recv_k_receiver:
  assumes "step \<noteq> 0" "index mod (2 * step) \<noteq> 0"
    "vec_at (rank_indices a) (index - step) = Inr p"
  shows "send_recv_k a step index r k =
     Inr (if is_local a r k
          then [TileRecv (fst (tile_ij (arg_side a) (snd p) k))
                  (snd (tile_ij (arg_side a) (snd p) k))
                  (partner_rank a (snd p) k) (arg_tag a)]
          else [])"
  using assms
  by (simp add: send_recv_k_def is_local_def partner_rank_def case_prod_unfold Let_def)

lemma update_k_receiver:
  assumes "step \<noteq> 0" "index mod (2 * step) \<noteq> 0"
    "vec_at (rank_indices a) (index - step) = Inr p"
  shows "update_k a step index r k =
     Inr (if is_local a r k
          then [TileGetForReading MatA 0 r, TileGetForReading MatT 0 r,
                TileGetForWriting MatC (fst (tile_ij (arg_side a) r k))
                  (snd (tile_ij (arg_side a) r k)),
                Tpmlqt (arg_side a) (arg_op a)
                  (min (tileMb (arg_A a) 0) (tileNb (arg_A a) r))
                  (0, r) (0, r) (tile_ij (arg_side a) (snd p) k) (tile_ij (arg_side a) r k)]
               @ (if call_tile_tick a then [TileTick MatA 0 r, TileTick MatT 0 r] else [])
          else [])"
  using assms
  by (simp add: update_k_def is_local_def case_prod_unfold Let_def)

lemma recv_send_k_receiver:
  assumes "step \<noteq> 0" "index mod (2 * step) \<noteq> 0"
    "vec_at (rank_indices a) (index - step) = Inr p"
  shows "recv_send_k a step index r k =
     Inr (if is_local a r k
          then [TileSend (fst (tile_ij (arg_side a) (snd p) k))
                  (snd (tile_ij (arg_side a) (snd p) k))
                  (partner_rank a (snd p) k) (arg_tag a)]
               @ (if call_tile_tick a
                  then [TileTick MatC (fst (tile_ij (arg_side a) (snd p) k))
                          (snd (tile_ij (arg_side a) (snd p) k))]
                  else [])
          else [])"
  using assms
  by (simp add: recv_send_k_def is_local_def partner_rank_def case_prod_unfold Let_def)

lemma for_loop_filter:
  assumes "\<And>k. body k = Inr (if P k then g k else [])"
  shows "for_loop 0 n 1 body = Inr (concat (map g (filter P [0..n - 1])))"
proof -
  have "for_loop 0 n 1 body = Inr (concat (map (\<lambda>k. if P k then g k else []) [0..n - 1]))"
    by (rule for_loop_unit) (rule assms)
  then show ?thesis by (simp only: concat_map_if)
qed

lemma for_loop_empty:
  assumes "\<And>k. body k = Inr []"
  shows "for_loop 0 n 1 body = Inr []"
proof -
  have "for_loop 0 n 1 body = Inr (concat (map (\<lambda>k. []) [0..n - 1]))"
    by (rule for_loop_unit) (rule assms)
  then show ?thesis by simp
qed

lemma index_body_seq:
  assumes "0 \<le> index" "index < nranks a"
  shows "index_body a step index =
      seq (for_loop 0 (k_end a) 1 (send_recv_k a step index (col_of a index)))
        (seq (for_loop 0 (k_end a) 1 (update_k a step index (col_of a index)))
           (for_loop 0 (k_end a) 1 (recv_send_k a step index (col_of a index))))"
proof -
  have "vec_at (rank_indices a) index = Inr (rank_indices a ! nat index)"
    using assms by (simp add: vec_at_Inr nranks_def)
  then show ?thesis
    by (simp add: index_body_def Let_def col_of_def)
qed

lemma index_body_sender:
  assumes "0 < step" "0 \<le> index" "index mod (2 * step) = 0" "index + step < nranks a"
  shows "index_body a step index =
     Inr (sender_trace a (col_of a index) (col_of a (index + step)))"
proof -
  have step0: "step \<noteq> 0" using assms(1) by simp
  have at1: "vec_at (rank_indices a) (index + step) = Inr (rank_indices a ! nat (index + step))"
    using assms by (simp add: vec_at_Inr nranks_def)
  have l1: "for_loop 0 (k_end a) 1 (send_recv_k a step index (col_of a index)) =
      Inr (concat (map (\<lambda>k. [TileGetForWriting MatC (fst (tile_ij (arg_side a) (col_of a index) k))
                  (snd (tile_ij (arg_side a) (col_of a index) k)),
                TileSend (fst (tile_ij (arg_side a) (col_of a index) k))
                  (snd (tile_ij (arg_side a) (col_of a index) k))
                  (partner_rank a (col_of a (index + step)) k) (arg_tag a)])
            (filter (is_local a (col_of a index)) [0..k_end a - 1])))"
    by (rule for_loop_filter)
      (simp only: send_recv_k_sender [OF step0 assms(3) assms(4) at1] col_of_def)
  have l2: "for_loop 0 (k_end a) 1 (update_k a step index (col_of a index)) = Inr []"
    by (rule for_loop_empty) (rule update_k_even [OF step0 assms(3)])
  have l3: "for_loop 0 (k_end a) 1 (recv_send_k a step index (col_of a index)) =
      Inr (concat (map (\<lambda>k. [AssertModified (fst (tile_ij (arg_side a) (col_of a index) k))
                  (snd (tile_ij (arg_side a) (col_of a index) k)),
                TileRecv (fst (tile_ij (arg_side a) (col_of a index) k))
                  (snd (tile_ij (arg_side a) (col_of a index) k))
                  (partner_rank a (col_of a (index + step)) k) (arg_tag a)])
            (filter (is_local a (col_of a index)) [0..k_end a - 1])))"
    by (rule for_loop_filter)
      (simp only: recv_send_k_sender [OF step0 assms(3) assms(4) at1] col_of_def)
  have "index < nranks a" using assms by simp
  then show ?thesis
    by (simp only: index_body_seq [OF assms(2)] l1 l2 l3 seq_Inr sender_trace_def local_ks_def
        append_Nil append_Nil2)
qed

lemma index_body_skip:
  assumes "0 < step" "0 \<le> index" "index < nranks a" "index mod (2 * step) = 0"
    "\<not> index + step < nranks a"
  shows "index_body a step index = Inr []"
proof -
  have step0: "step \<noteq> 0" using assms(1) by simp
  have l1: "for_loop 0 (k_end a) 1 (send_recv_k a step index (col_of a index)) = Inr []"
    by (rule for_loop_empty) (rule send_recv_k_skip [OF step0 assms(4) assms(5)])
  have l2: "for_loop 0 (k_end a) 1 (update_k a step index (col_of a index)) = Inr []"
    by (rule for_loop_empty) (rule update_k_even [OF step0 assms(4)])
  have l3: "for_loop 0 (k_end a) 1 (recv_send_k a step index (col_of a index)) = Inr []"
    by (rule for_loop_empty) (rule recv_send_k_skip [OF step0 assms(4) assms(5)])
  show ?thesis
    by (simp only: index_body_seq [OF assms(2) assms(3)] l1 l2 l3 seq_Inr append_Nil)
qed

lemma index_body_receiver:
  assumes "0 < step" "0 \<le> index" "index < nranks a" "step dvd index"
    "index mod (2 * step) \<noteq> 0"
  shows "index_body a step index =
     Inr (receiver_trace a (col_of a index) (col_of a (index - step)))"
proof -
  have step0: "step \<noteq> 0" using assms(1) by simp
  have "step \<le> index"
    by (rule receiver_has_partner [OF assms(1) assms(2) assms(4) assms(5)])
  then have at1: "vec_at (rank_indices a) (index - step) = Inr (rank_indices a ! nat (index - step))"
    using assms by (simp add: vec_at_Inr nranks_def)
  have l1: "for_loop 0 (k_end a) 1 (send_recv_k a step index (col_of a index)) =
      Inr (concat (map (\<lambda>k. [TileRecv (fst (tile_ij (arg_side a) (col_of a (index - step)) k))
                  (snd (tile_ij (arg_side a) (col_of a (index - step)) k))
                  (partner_rank a (col_of a (index - step)) k) (arg_tag a)])
            (filter (is_local a (col_of a index)) [0..k_end a - 1])))"
    by (rule for_loop_filter)
      (simp only: send_recv_k_receiver [OF step0 assms(5) at1] col_of_def)
  have l2: "for_loop 0 (k_end a) 1 (update_k a step index (col_of a index)) =
      Inr (concat (map (\<lambda>k. [TileGetForReading MatA 0 (col_of a index),
                TileGetForReading MatT 0 (col_of a index),
                TileGetForWriting MatC (fst (tile_ij (arg_side a) (col_of a index) k))
                  (snd (tile_ij (arg_side a) (col_of a index) k)),
                Tpmlqt (arg_side a) (arg_op a)
                  (min (tileMb (arg_A a) 0) (tileNb (arg_A a) (col_of a index)))
                  (0, col_of a index) (0, col_of a index)
                  (tile_ij (arg_side a) (col_of a (index - step)) k)
                  (tile_ij (arg_side a) (col_of a index) k)]
               @ (if call_tile_tick a
                  then [TileTick MatA 0 (col_of a index), TileTick MatT 0 (col_of a index)]
                  else []))
            (filter (is_local a (col_of a index)) [0..k_end a - 1])))"
    by (rule for_loop_filter)
      (simp only: update_k_receiver [OF step0 assms(5) at1] col_of_def)
  have l3: "for_loop 0 (k_end a) 1 (recv_send_k a step index (col_of a index)) =
      Inr (concat (map (\<lambda>k. [TileSend (fst (tile_ij (arg_side a) (col_of a (index - step)) k))
                  (snd (tile_ij (arg_side a) (col_of a (index - step)) k))
                  (partner_rank a (col_of a (index - step)) k) (arg_tag a)]
               @ (if call_tile_tick a
                  then [TileTick MatC (fst (tile_ij (arg_side a) (col_of a (index - step)) k))
                          (snd (tile_ij (arg_side a) (col_of a (index - step)) k))]
                  else []))
            (filter (is_local a (col_of a index)) [0..k_end a - 1])))"
    by (rule for_loop_filter)
      (simp only: recv_send_k_receiver [OF step0 assms(5) at1] col_of_def)
  show ?thesis
    by (simp only: index_body_seq [OF assms(2) assms(3)] l1 l2 l3 seq_Inr receiver_trace_def
        local_ks_def)
qed

lemma index_body_total:
  assumes "0 < step" "0 \<le> index" "index < nranks a" "step dvd index"
  shows "\<exists>es. index_body a step index = Inr es"
proof (cases "index mod (2 * step) = 0")
  case True
  show ?thesis
  proof (cases "index + step < nranks a")
    case True
    with assms \<open>index mod (2 * step) = 0\<close> show ?thesis by (simp add: index_body_sender)
  next
    case False
    with assms \<open>index mod (2 * step) = 0\<close> show ?thesis by (simp add: index_body_skip)
  qed
next
  case False
  with assms show ?thesis by (simp add: index_body_receiver)
qed

lemma level_total:
  assumes "0 < step"
  shows "\<exists>es. for_loop 0 (nranks a) step (index_body a step) = Inr es"
  using assms by (intro for_loop_total index_body_total) simp_all

lemma level_loop_ascending:
  assumes "\<not> descend a" "0 < step"
  shows "\<exists>levels. level_loop a n step = Inr levels
           \<and> map fst levels = map (\<lambda>l. step * 2 ^ l) [0..<n]"
  using assms(2)
proof (induction n arbitrary: step)
  case 0
  show ?case by simp
next
  case (Suc n)
  from level_total [OF Suc.prems] obtain es where
    es: "for_loop 0 (nranks a) step (index_body a step) = Inr es" ..
  from Suc.IH [of "step * 2"] Suc.prems obtain levels where
    ls: "level_loop a n (step * 2) = Inr levels"
        "map fst levels = map (\<lambda>l. step * 2 * 2 ^ l) [0..<n]" by auto
  have "map (\<lambda>l. step * 2 ^ l) [0..<Suc n] = step # map (\<lambda>l. step * 2 * 2 ^ l) [0..<n]"
    by (simp add: map_upt_Suc del: upt_Suc)
  with es ls assms(1) show ?case by simp
qed

lemma level_loop_descending:
  assumes "descend a" "n \<le> Suc k"
  shows "\<exists>levels. level_loop a n (2 ^ k) = Inr levels
           \<and> map fst levels = map (\<lambda>l. 2 ^ (k - l)) [0..<n]"
  using assms(2)
proof (induction n arbitrary: k)
  case 0
  show ?case by simp
next
  case (Suc n)
  have "(0::int) < 2 ^ k" by simp
  from level_total [OF this] obtain es where
    es: "for_loop 0 (nranks a) (2 ^ k) (index_body a (2 ^ k)) = Inr es" ..
  show ?case
  proof (cases n)
    case 0
    with es show ?thesis by simp
  next
    case (Suc m)
    with Suc.prems obtain k' where k': "k = Suc k'" by (cases k) auto
    then have half: "(2::int) ^ k div 2 = 2 ^ k'" by simp
    from Suc.IH [of k'] Suc.prems k' obtain levels where
      ls: "level_loop a n (2 ^ k') = Inr levels"
          "map fst levels = map (\<lambda>l. 2 ^ (k' - l)) [0..<n]" by auto
    have "map (\<lambda>l. (2::int) ^ (k - l)) [0..<Suc n] = 2 ^ k # map (\<lambda>l. 2 ^ (k' - l)) [0..<n]"
      by (simp add: map_upt_Suc k' del: upt_Suc)
    with es ls assms(1) half show ?thesis by simp
  qed
qed

lemma nlevels_ceillog2:
  assumes "1 \<le> nranks a"
  shows "nlevels a = int (ceillog2 (nat (nranks a)))"
proof -
  have "real_of_int (nranks a) = real (nat (nranks a))" using assms by simp
  moreover have "nat (nranks a) \<noteq> 0" using assms by simp
  moreover have "0 \<le> \<lceil>log 2 (real (nat (nranks a)))\<rceil>"
  proof -
    have "0 \<le> log 2 (real (nat (nranks a)))" using assms by simp
    then show ?thesis by linarith
  qed
  ultimately show ?thesis by (simp add: nlevels_def ceillog2_def)
qed

lemma first_step_descend:
  assumes "descend a" "1 \<le> nlevels a"
  shows "first_step a = 2 ^ (nat (nlevels a) - 1)"
proof -
  from assms(2) obtain m where m: "nlevels a - 1 = int m"
    by (metis diff_ge_0_iff_ge nonneg_int_cases)
  then have "nat (nlevels a) - 1 = m" by simp
  moreover have "\<lfloor>(2::real) powr real_of_int (int m)\<rfloor> = 2 ^ m"
    by (simp add: powr_realpow)
  ultimately show ?thesis using assms(1) m by (simp add: first_step_def)
qed

lemma ttmlq_levels_steps:
  assumes "mt (arg_A a) = 1"
    and "nt (arg_A a) = (if arg_side a = Left then mt (arg_C a) else nt (arg_C a))"
    and "1 \<le> nranks a"
  shows "\<exists>levels. ttmlq_levels a = Inr levels
           \<and> map fst levels =
               (if descend a then rev (map (\<lambda>l. 2 ^ l) [0..<nat (nlevels a)])
                else map (\<lambda>l. 2 ^ l) [0..<nat (nlevels a)])"
proof -
  have run: "ttmlq_levels a = level_loop a (nat (nlevels a)) (first_step a)"
    using assms by (auto simp: ttmlq_levels_def)
  show ?thesis
  proof (cases "descend a")
    case False
    then have "first_step a = 1" by (simp add: first_step_def)
    with level_loop_ascending [OF False, of 1 "nat (nlevels a)"] run False
    show ?thesis by simp
  next
    case True
    show ?thesis
    proof (cases "1 \<le> nlevels a")
      case False
      then have "nat (nlevels a) = 0" by simp
      with run True show ?thesis by simp
    next
      case le: True
      let ?n = "nat (nlevels a)"
      from le obtain k where k: "?n = Suc k" by (cases ?n) auto
      from level_loop_descending [OF True, of ?n k] k obtain levels where
        ls: "level_loop a ?n (2 ^ k) = Inr levels"
            "map fst levels = map (\<lambda>l. 2 ^ (k - l)) [0..<?n]" by auto
      have "map (\<lambda>l. (2::int) ^ (k - l)) [0..<Suc k] = rev (map (\<lambda>l. 2 ^ l) [0..<Suc k])"
        by (rule nth_equalityI) (simp_all add: rev_nth del: upt_Suc)
      with ls k run first_step_descend [OF True le] True show ?thesis by simp
    qed
  qed
qed

lemma transfer_tags_append: "transfer_tags (xs @ ys) = transfer_tags xs @ transfer_tags ys"
  by (induction xs) (auto split: event.splits)

lemma ttmlq_levels_length:
  assumes "ttmlq_levels a = Inr levels"
    and "map fst levels =
           (if descend a then rev (map (\<lambda>l. 2 ^ l) [0..<nat (nlevels a)])
            else map (\<lambda>l. 2 ^ l) [0..<nat (nlevels a)])"
  shows "length levels = nat (nlevels a)"
proof -
  have "length (map fst levels) = nat (nlevels a)"
    unfolding assms(2) by simp
  then show ?thesis by simp
qed

lemma one_tag_Nil: "one_tag t []"
  by (simp add: one_tag_def)

lemma one_tag_append: "one_tag t xs \<Longrightarrow> one_tag t ys \<Longrightarrow> one_tag t (xs @ ys)"
  by (simp add: one_tag_def transfer_tags_append)

lemma one_tag_seq:
  assumes "seq r1 r2 = Inr es"
    and "\<And>xs. r1 = Inr xs \<Longrightarrow> one_tag t xs" and "\<And>ys. r2 = Inr ys \<Longrightarrow> one_tag t ys"
  shows "one_tag t es"
  using assms by (auto simp: seq_eq_Inr intro: one_tag_append)

lemma send_recv_k_tag: "send_recv_k a step index r k = Inr es \<Longrightarrow> one_tag (arg_tag a) es"
  by (auto simp: send_recv_k_def one_tag_def Let_def case_prod_unfold
      split: if_splits sum.splits)

lemma update_k_tag: "update_k a step index r k = Inr es \<Longrightarrow> one_tag (arg_tag a) es"
  by (auto simp: update_k_def one_tag_def Let_def case_prod_unfold
      split: if_splits sum.splits)

lemma recv_send_k_tag: "recv_send_k a step index r k = Inr es \<Longrightarrow> one_tag (arg_tag a) es"
  by (auto simp: recv_send_k_def one_tag_def Let_def case_prod_unfold
      split: if_splits sum.splits)

lemma index_body_tag:
  assumes "index_body a step index = Inr es"
  shows "one_tag (arg_tag a) es"
proof -
  from assms obtain p where
    es: "seq (for_loop 0 (k_end a) 1 (send_recv_k a step index (snd p)))
            (seq (for_loop 0 (k_end a) 1 (update_k a step index (snd p)))
               (for_loop 0 (k_end a) 1 (recv_send_k a step index (snd p)))) = Inr es"
    by (auto simp: index_body_def Let_def split: sum.splits)
  have k_loop: "one_tag (arg_tag a) xs"
    if "for_loop 0 (k_end a) 1 body = Inr xs"
      and "\<And>k es'. body k = Inr es' \<Longrightarrow> one_tag (arg_tag a) es'" for body xs
    using that(1) by (rule for_loop_invariant) (auto intro: one_tag_Nil one_tag_append that(2))
  show ?thesis
    using es
    by (rule one_tag_seq)
      (auto elim!: one_tag_seq k_loop intro: send_recv_k_tag update_k_tag recv_send_k_tag)
qed

lemma level_loop_tag:
  "level_loop a n step = Inr levels \<Longrightarrow> one_tag (arg_tag a) (concat (map snd levels))"
proof (induction n arbitrary: step levels)
  case 0
  then show ?case by (simp add: one_tag_Nil)
next
  case (Suc n)
  from Suc.prems obtain es rest where
    es: "for_loop 0 (nranks a) step (index_body a step) = Inr es" and
    rest: "level_loop a n (if descend a then step div 2 else step * 2) = Inr rest" and
    levels: "levels = (step, es) # rest"
    by (auto split: sum.splits)
  have "one_tag (arg_tag a) es"
    using es by (rule for_loop_invariant) (auto intro: one_tag_Nil one_tag_append index_body_tag)
  moreover have "one_tag (arg_tag a) (concat (map snd rest))"
    using rest by (rule Suc.IH)
  ultimately show ?case using levels by (simp add: one_tag_append)
qed

lemma ttmlq_tag: "ttmlq a = Inr es \<Longrightarrow> one_tag (arg_tag a) es"
  by (auto simp: ttmlq_def ttmlq_levels_def split: sum.splits if_splits dest: level_loop_tag)

lemma ttmlq_total:
  assumes "mt (arg_A a) = 1"
    and "nt (arg_A a) = (if arg_side a = Left then mt (arg_C a) else nt (arg_C a))"
    and "1 \<le> nranks a"
  shows "\<exists>es. ttmlq a = Inr es"
  using ttmlq_levels_steps [OF assms] by (auto simp: ttmlq_def)

lemma nlevels_code [code]: "nlevels a = int (ceillog2 (nat (nranks a)))"
proof (cases "1 \<le> nranks a")
  case True
  then show ?thesis by (rule nlevels_ceillog2)
next
  case False
  moreover have "0 \<le> nranks a" by (simp add: nranks_def)
  ultimately have "nranks a = 0" by simp
  then show ?thesis by (simp add: nlevels_def log_def)
qed

lemma first_step_code [code]:
  "first_step a =
     (if descend a then (if nlevels a \<le> 0 then 0 else 2 ^ nat (nlevels a - 1)) else 1)"
proof (cases "1 \<le> nlevels a")
  case True
  then have "nat (nlevels a) - 1 = nat (nlevels a - 1)" by simp
  with True first_step_descend [of a] show ?thesis by (auto simp: first_step_def)
next
  case False
  moreover have "0 \<le> nlevels a" by (simp add: nlevels_code)
  ultimately have z: "nlevels a = 0" by simp
  have "\<lfloor>(2::real) powr (- 1)\<rfloor> = 0" by (simp add: powr_minus)
  with z show ?thesis by (simp add: first_step_def)
qed

subsection \<open>The claims on the reduction tree\<close>

text \<open>
  Claim C1. A call whose assertions hold and whose panel has \<open>N \<ge> 1\<close> participants returns,
  and the number of levels it has run is \<open>\<lceil>log\<^sub>2 N\<rceil>\<close>. With a single participant it runs no
  level, and its trace is empty: no tile is sent or received.
\<close>

theorem tree_levels:
  assumes "mt (arg_A a) = 1"
    and "nt (arg_A a) = (if arg_side a = Left then mt (arg_C a) else nt (arg_C a))"
    and "1 \<le> nranks a"
  shows "\<exists>levels. ttmlq_levels a = Inr levels
           \<and> int (length levels) = \<lceil>log 2 (real_of_int (nranks a))\<rceil>
           \<and> (nranks a = 1 \<longrightarrow> levels = [] \<and> ttmlq a = Inr [])"
proof -
  from ttmlq_levels_steps [OF assms] obtain levels where
    run: "ttmlq_levels a = Inr levels" and
    steps: "map fst levels =
           (if descend a then rev (map (\<lambda>l. 2 ^ l) [0..<nat (nlevels a)])
            else map (\<lambda>l. 2 ^ l) [0..<nat (nlevels a)])" by blast
  have len: "length levels = nat (nlevels a)"
    using run steps by (rule ttmlq_levels_length)
  have nonneg: "0 \<le> nlevels a"
    using nlevels_ceillog2 [OF assms(3)] by simp
  have "int (length levels) = \<lceil>log 2 (real_of_int (nranks a))\<rceil>"
    using len nonneg by (simp add: nlevels_def)
  moreover have "levels = [] \<and> ttmlq a = Inr []" if "nranks a = 1"
  proof -
    from that have "nlevels a = 0" by (simp add: nlevels_def)
    with len have "levels = []" by simp
    with run show ?thesis by (simp add: ttmlq_def)
  qed
  ultimately show ?thesis using run by blast
qed

text \<open>
  The claim for panels of four, three and one participants: two levels, two levels, none.
\<close>

theorem tree_levels_witness:
  "(\<exists>levels. ttmlq_levels (row_call ConjTrans 4 0 5) = Inr levels \<and> length levels = 2)
   \<and> (\<exists>levels. ttmlq_levels (row_call ConjTrans 3 0 5) = Inr levels \<and> length levels = 2)
   \<and> ttmlq_levels (row_call ConjTrans 1 0 5) = Inr []
   \<and> ttmlq (row_call ConjTrans 1 0 5) = Inr []"
proof -
  have shape: "mt (arg_A (row_call ConjTrans n 0 5)) = 1"
    "nt (arg_A (row_call ConjTrans n 0 5)) =
       (if arg_side (row_call ConjTrans n 0 5) = Left then mt (arg_C (row_call ConjTrans n 0 5))
        else nt (arg_C (row_call ConjTrans n 0 5)))" for n
    by (simp_all add: row_call_def row_matrix_def)
  have n4: "nranks (row_call ConjTrans 4 0 5) = 4" by code_simp
  have n3: "nranks (row_call ConjTrans 3 0 5) = 3" by code_simp
  have n1: "nranks (row_call ConjTrans 1 0 5) = 1" by code_simp
  have l4: "\<lceil>log 2 (real_of_int 4)\<rceil> = 2"
    using ceillog2_2_power [of 2] by (simp add: ceillog2_def)
  have "ceillog2 3 = 2" by code_simp
  then have l3: "\<lceil>log 2 (real_of_int 3)\<rceil> = 2" by (simp add: ceillog2_def)
  have "\<exists>levels. ttmlq_levels (row_call ConjTrans 4 0 5) = Inr levels \<and> length levels = 2"
    using tree_levels [OF shape, of 4] n4 l4 by auto
  moreover have "\<exists>levels. ttmlq_levels (row_call ConjTrans 3 0 5) = Inr levels \<and> length levels = 2"
    using tree_levels [OF shape, of 3] n3 l3 by auto
  moreover have "ttmlq_levels (row_call ConjTrans 1 0 5) = Inr []
      \<and> ttmlq (row_call ConjTrans 1 0 5) = Inr []"
    using tree_levels [OF shape, of 1] n1 by auto
  ultimately show ?thesis by blast
qed



text \<open>
  Claim C4. Two calls whose assertions hold, on panels with the same number \<open>N \<ge> 1\<close> of
  participants, one walking the tree from the root to the leaves and one from the leaves
  to the root, both return. With \<open>L = \<lceil>log\<^sub>2 N\<rceil>\<close>, the steps of the first are
  \<open>2\<^sup>L\<^sup>-\<^sup>1, \<dots>, 2, 1\<close>, the steps of the second are \<open>1, 2, \<dots>, 2\<^sup>L\<^sup>-\<^sup>1\<close>, and the first sequence is
  the second reversed.
\<close>

theorem step_schedule:
  assumes "mt (arg_A a) = 1"
    and "nt (arg_A a) = (if arg_side a = Left then mt (arg_C a) else nt (arg_C a))"
    and "mt (arg_A b) = 1"
    and "nt (arg_A b) = (if arg_side b = Left then mt (arg_C b) else nt (arg_C b))"
    and "1 \<le> nranks a" and "nranks b = nranks a"
    and "descend a" and "\<not> descend b"
  shows "\<exists>down up. ttmlq_levels a = Inr down \<and> ttmlq_levels b = Inr up
           \<and> map fst down =
               map (\<lambda>l. 2 ^ (nat \<lceil>log 2 (real_of_int (nranks a))\<rceil> - 1 - l))
                 [0..<nat \<lceil>log 2 (real_of_int (nranks a))\<rceil>]
           \<and> map fst up = map (\<lambda>l. 2 ^ l) [0..<nat \<lceil>log 2 (real_of_int (nranks a))\<rceil>]
           \<and> map fst down = rev (map fst up)"
proof -
  let ?L = "nat \<lceil>log 2 (real_of_int (nranks a))\<rceil>"
  have La: "nat (nlevels a) = ?L" by (simp add: nlevels_def)
  have Lb: "nat (nlevels b) = ?L" using assms(6) by (simp add: nlevels_def)
  from ttmlq_levels_steps [OF assms(1,2,5)] assms(7) La obtain down where
    down: "ttmlq_levels a = Inr down" "map fst down = rev (map (\<lambda>l. 2 ^ l) [0..<?L])"
    by auto
  have "1 \<le> nranks b" using assms(5,6) by simp
  from ttmlq_levels_steps [OF assms(3,4) this] assms(8) Lb obtain up where
    up: "ttmlq_levels b = Inr up" "map fst up = map (\<lambda>l. 2 ^ l) [0..<?L]"
    by auto
  have "rev (map (\<lambda>l. (2::int) ^ l) [0..<?L]) = map (\<lambda>l. 2 ^ (?L - 1 - l)) [0..<?L]"
    by (rule nth_equalityI) (simp_all add: rev_nth)
  with down up show ?thesis by simp
qed

text \<open>Five participants, three levels: steps 4, 2, 1 down and 1, 2, 4 up.\<close>

theorem step_schedule_witness:
  "\<exists>down up. ttmlq_levels (row_call NoTrans 5 0 5) = Inr down
     \<and> ttmlq_levels (row_call ConjTrans 5 0 5) = Inr up
     \<and> map fst down = [4, 2, 1] \<and> map fst up = [1, 2, 4]"
proof -
  let ?a = "row_call NoTrans 5 0 5" and ?b = "row_call ConjTrans 5 0 5"
  have na: "nranks ?a = 5" and nb: "nranks ?b = 5" by code_simp+
  have "ceillog2 5 = 3" by code_simp
  then have L: "nat \<lceil>log 2 (real_of_int 5)\<rceil> = 3" by (simp add: ceillog2_def)
  have upt: "[0..<3] = [0, 1, 2]" by (simp add: upt_rec)
  have "\<exists>down up. ttmlq_levels ?a = Inr down \<and> ttmlq_levels ?b = Inr up
           \<and> map fst down =
               map (\<lambda>l. 2 ^ (nat \<lceil>log 2 (real_of_int (nranks ?a))\<rceil> - 1 - l))
                 [0..<nat \<lceil>log 2 (real_of_int (nranks ?a))\<rceil>]
           \<and> map fst up = map (\<lambda>l. 2 ^ l) [0..<nat \<lceil>log 2 (real_of_int (nranks ?a))\<rceil>]
           \<and> map fst down = rev (map fst up)"
    by (rule step_schedule) (simp_all add: na nb, simp_all add: row_call_def row_matrix_def descend_def)
  then show ?thesis unfolding na L upt by auto
qed

text \<open>
  Claim C5. For a matrix \<^verbatim>\<open>A\<close> of one row of tiles, the participant list holds exactly the
  pairs \<open>(r, j)\<close> where \<open>j\<close> is the smallest column with \<^verbatim>\<open>A.tileRank(0, j) == r\<close>; each rank
  that owns a tile of the row occurs, and occurs once; the list is in strictly ascending
  order of \<open>j\<close>; and it is the same for every call on a matrix with the same distribution,
  whichever rank makes the call and whatever the other arguments are.
\<close>

theorem participant_list:
  assumes "mt (arg_A a) = 1"
  shows "set (rank_indices a) =
           {(r, j). 0 \<le> j \<and> j < nt (arg_A a) \<and> tileRank (arg_A a) 0 j = r
                    \<and> (\<forall>j'. 0 \<le> j' \<and> j' < j \<longrightarrow> tileRank (arg_A a) 0 j' \<noteq> r)}
       \<and> fst ` set (rank_indices a) = tileRank (arg_A a) 0 ` {0..nt (arg_A a) - 1}
       \<and> distinct (map fst (rank_indices a))
       \<and> sorted_wrt (<) (map snd (rank_indices a))
       \<and> (\<forall>b. mt (arg_A b) = 1 \<and> nt (arg_A b) = nt (arg_A a)
                \<and> tileRank (arg_A b) = tileRank (arg_A a)
              \<longrightarrow> rank_indices b = rank_indices a)"
proof (intro conjI allI impI)
  show "set (rank_indices a) =
           {(r, j). 0 \<le> j \<and> j < nt (arg_A a) \<and> tileRank (arg_A a) 0 j = r
                    \<and> (\<forall>j'. 0 \<le> j' \<and> j' < j \<longrightarrow> tileRank (arg_A a) 0 j' \<noteq> r)}"
    using set_rank_indices [OF assms] by (simp add: is_first_col_def)
  show "fst ` set (rank_indices a) = tileRank (arg_A a) 0 ` {0..nt (arg_A a) - 1}"
    using assms by (rule ranks_of_rank_indices)
  show "distinct (map fst (rank_indices a))" by (rule rank_indices_ranks_distinct)
  show "sorted_wrt (<) (map snd (rank_indices a))" by (rule rank_indices_strict_sorted)
next
  fix b :: ttmlq_args
  assume "mt (arg_A b) = 1 \<and> nt (arg_A b) = nt (arg_A a)
      \<and> tileRank (arg_A b) = tileRank (arg_A a)"
  with assms show "rank_indices b = rank_indices a"
    by (intro rank_indices_same_distribution) simp_all
qed

text \<open>
  Five tiles dealt to three ranks: the list is the same as computed by rank 0 and by rank 2
  (in a call with other arguments), and rank 1 is listed with column 1, not column 4.
\<close>

theorem participant_list_witness:
  "rank_indices \<lparr>arg_side = Right, arg_op = ConjTrans, arg_A = cyclic_row 5 3 0,
                  arg_C = cyclic_row 5 3 0, arg_tag = 0, arg_opts = None\<rparr>
     = [(0, 0), (1, 1), (2, 2)]
   \<and> rank_indices \<lparr>arg_side = Left, arg_op = NoTrans, arg_A = cyclic_row 5 3 2,
                  arg_C = cyclic_row 7 2 2, arg_tag = 9, arg_opts = Some Internal\<rparr>
     = [(0, 0), (1, 1), (2, 2)]
   \<and> (1, 1) \<in> set (rank_indices \<lparr>arg_side = Right, arg_op = ConjTrans, arg_A = cyclic_row 5 3 0,
                  arg_C = cyclic_row 5 3 0, arg_tag = 0, arg_opts = None\<rparr>)
   \<and> (1, 4) \<notin> set (rank_indices \<lparr>arg_side = Right, arg_op = ConjTrans, arg_A = cyclic_row 5 3 0,
                  arg_C = cyclic_row 5 3 0, arg_tag = 0, arg_opts = None\<rparr>)"
proof -
  let ?a = "\<lparr>arg_side = Right, arg_op = ConjTrans, arg_A = cyclic_row 5 3 0,
                  arg_C = cyclic_row 5 3 0, arg_tag = 0, arg_opts = None\<rparr>"
  let ?b = "\<lparr>arg_side = Left, arg_op = NoTrans, arg_A = cyclic_row 5 3 2,
                  arg_C = cyclic_row 7 2 2, arg_tag = 9, arg_opts = Some Internal\<rparr>"
  have row: "mt (arg_A ?a) = 1" by (simp add: cyclic_row_def)
  note fact = participant_list [OF row]
  have val: "rank_indices ?a = [(0, 0), (1, 1), (2, 2)]" by code_simp
  have same: "mt (arg_A ?b) = 1 \<and> nt (arg_A ?b) = nt (arg_A ?a)
      \<and> tileRank (arg_A ?b) = tileRank (arg_A ?a)"
    by (simp add: cyclic_row_def)
  have "rank_indices ?b = rank_indices ?a"
    using fact [THEN conjunct2, THEN conjunct2, THEN conjunct2, THEN conjunct2, rule_format,
        OF same] .
  moreover have "(1, 1) \<in> set (rank_indices ?a)"
    unfolding fact [THEN conjunct1] by (simp add: cyclic_row_def)
  moreover have "(1, 4) \<notin> set (rank_indices ?a)"
    unfolding fact [THEN conjunct1] by (auto simp: cyclic_row_def intro!: exI [of _ 1])
  ultimately show ?thesis using val by simp
qed

text \<open>
  Claim C6. At a level with step \<open>s\<close>, a participant index that is a multiple of \<open>2 s\<close> and
  has no partner (index + \<open>s\<close> is not below the number of participants) is skipped: the body
  of the loop returns the empty trace for it, no send and no receive. The participant list
  itself is never extended.
\<close>

theorem unpaired_index_skipped:
  assumes "0 < step" and "0 \<le> index" and "index < nranks a"
    and "index mod (2 * step) = 0" and "nranks a \<le> index + step"
  shows "index_body a step index = Inr []"
  using assms by (intro index_body_skip) simp_all

text \<open>Three participants, step 1: index 2 has no partner.\<close>

theorem unpaired_index_skipped_witness:
  "nranks (row_call ConjTrans 3 2 5) = 3 \<and> index_body (row_call ConjTrans 3 2 5) 1 2 = Inr []"
proof -
  have n: "nranks (row_call ConjTrans 3 2 5) = 3" by code_simp
  then show ?thesis
    using unpaired_index_skipped [of 1 2 "row_call ConjTrans 3 2 5"] by simp
qed

text \<open>
  Claim C7, as stated, fails: the tag of a transfer is not chosen by \<^verbatim>\<open>ttmlq\<close> per step.
  In the call below, with four participants and tag 5, rank 0 sends and receives with tag
  5 at the level with step 1 and again at the level with step 2; and a call for another
  panel (two participants) that is given the same tag uses tag 5 as well.
\<close>

theorem tag_shared_between_levels:
  "ttmlq_levels (row_call ConjTrans 4 0 5) =
     Inr [(1, [TileGetForWriting MatC 0 0, TileSend 0 0 1 5, AssertModified 0 0, TileRecv 0 0 1 5]),
          (2, [TileGetForWriting MatC 0 0, TileSend 0 0 2 5, AssertModified 0 0, TileRecv 0 0 2 5])]
   \<and> ttmlq (row_call ConjTrans 2 0 5) =
     Inr [TileGetForWriting MatC 0 0, TileSend 0 0 1 5, AssertModified 0 0, TileRecv 0 0 1 5]"
  by code_simp

text \<open>
  Claim C7, amended. Every transfer of one call carries the tag the caller passed, at every
  level and for every tile. So two calls whose assertions hold, on panels with at least one
  participant, that are given different tags, both return and have no tag in common.
\<close>

theorem transfers_carry_call_tag:
  assumes "mt (arg_A a) = 1"
    and "nt (arg_A a) = (if arg_side a = Left then mt (arg_C a) else nt (arg_C a))"
    and "1 \<le> nranks a"
    and "mt (arg_A b) = 1"
    and "nt (arg_A b) = (if arg_side b = Left then mt (arg_C b) else nt (arg_C b))"
    and "1 \<le> nranks b"
    and "arg_tag a \<noteq> arg_tag b"
  shows "\<exists>es es'. ttmlq a = Inr es \<and> ttmlq b = Inr es'
           \<and> set (transfer_tags es) \<subseteq> {arg_tag a}
           \<and> set (transfer_tags es') \<subseteq> {arg_tag b}
           \<and> set (transfer_tags es) \<inter> set (transfer_tags es') = {}"
proof -
  from ttmlq_total [OF assms(1-3)] obtain es where es: "ttmlq a = Inr es" ..
  from ttmlq_total [OF assms(4-6)] obtain es' where es': "ttmlq b = Inr es'" ..
  have "set (transfer_tags es) \<subseteq> {arg_tag a}"
    using ttmlq_tag [OF es] by (simp add: one_tag_def)
  moreover have "set (transfer_tags es') \<subseteq> {arg_tag b}"
    using ttmlq_tag [OF es'] by (simp add: one_tag_def)
  ultimately show ?thesis using es es' assms(7) by blast
qed

text \<open>Two calls on the same panel, with tags 5 and 6.\<close>

theorem transfers_carry_call_tag_witness:
  "\<exists>es es'. ttmlq (row_call ConjTrans 4 0 5) = Inr es \<and> ttmlq (row_call ConjTrans 4 0 6) = Inr es'
     \<and> set (transfer_tags es) \<subseteq> {5} \<and> set (transfer_tags es') \<subseteq> {6}
     \<and> set (transfer_tags es) \<inter> set (transfer_tags es') = {}"
proof -
  let ?a = "row_call ConjTrans 4 0 5" and ?b = "row_call ConjTrans 4 0 6"
  have na: "1 \<le> nranks ?a" and nb: "1 \<le> nranks ?b" by code_simp+
  have "\<exists>es es'. ttmlq ?a = Inr es \<and> ttmlq ?b = Inr es'
           \<and> set (transfer_tags es) \<subseteq> {arg_tag ?a}
           \<and> set (transfer_tags es') \<subseteq> {arg_tag ?b}
           \<and> set (transfer_tags es) \<inter> set (transfer_tags es') = {}"
    using na nb by (intro transfers_carry_call_tag) (simp_all add: row_call_def row_matrix_def)
  then show ?thesis by (simp add: row_call_def)
qed


section \<open>Results on the coherency protocol\<close>





























































section \<open>Results on the scenario with four ranks\<close>

lemma scenario_traces:
  "ttmlq (row_call ConjTrans 4 0 5) =
     Inr [TileGetForWriting MatC 0 0, TileSend 0 0 1 5, AssertModified 0 0, TileRecv 0 0 1 5,
          TileGetForWriting MatC 0 0, TileSend 0 0 2 5, AssertModified 0 0, TileRecv 0 0 2 5]"
  "ttmlq (row_call ConjTrans 4 1 5) =
     Inr [TileRecv 0 0 0 5,
          TileGetForReading MatA 0 1, TileGetForReading MatT 0 1, TileGetForWriting MatC 0 1,
          Tpmlqt Right ConjTrans 4 (0, 1) (0, 1) (0, 0) (0, 1),
          TileTick MatA 0 1, TileTick MatT 0 1, TileSend 0 0 0 5, TileTick MatC 0 0]"
  "ttmlq (row_call ConjTrans 4 2 5) =
     Inr [TileGetForWriting MatC 0 2, TileSend 0 2 3 5, AssertModified 0 2, TileRecv 0 2 3 5,
          TileRecv 0 0 0 5,
          TileGetForReading MatA 0 2, TileGetForReading MatT 0 2, TileGetForWriting MatC 0 2,
          Tpmlqt Right ConjTrans 4 (0, 2) (0, 2) (0, 0) (0, 2),
          TileTick MatA 0 2, TileTick MatT 0 2, TileSend 0 0 0 5, TileTick MatC 0 0]"
  "ttmlq (row_call ConjTrans 4 3 5) =
     Inr [TileRecv 0 2 2 5,
          TileGetForReading MatA 0 3, TileGetForReading MatT 0 3, TileGetForWriting MatC 0 3,
          Tpmlqt Right ConjTrans 4 (0, 3) (0, 3) (0, 2) (0, 3),
          TileTick MatA 0 3, TileTick MatT 0 3, TileSend 0 2 2 5, TileTick MatC 0 2]"
  by code_simp+

lemma mpiRank_row_call: "mpiRank (arg_C (row_call opQ n r tg)) = r"
  by (simp add: row_call_def row_matrix_def)

lemma scenario_levels:
  "ttmlq_levels (row_call ConjTrans 4 0 5) =
     Inr [(1, [TileGetForWriting MatC 0 0, TileSend 0 0 1 5, AssertModified 0 0, TileRecv 0 0 1 5]),
          (2, [TileGetForWriting MatC 0 0, TileSend 0 0 2 5, AssertModified 0 0, TileRecv 0 0 2 5])]"
  "ttmlq_levels (row_call ConjTrans 4 1 5) =
     Inr [(1, [TileRecv 0 0 0 5,
               TileGetForReading MatA 0 1, TileGetForReading MatT 0 1, TileGetForWriting MatC 0 1,
               Tpmlqt Right ConjTrans 4 (0, 1) (0, 1) (0, 0) (0, 1),
               TileTick MatA 0 1, TileTick MatT 0 1, TileSend 0 0 0 5, TileTick MatC 0 0]),
          (2, [])]"
  "ttmlq_levels (row_call ConjTrans 4 2 5) =
     Inr [(1, [TileGetForWriting MatC 0 2, TileSend 0 2 3 5, AssertModified 0 2, TileRecv 0 2 3 5]),
          (2, [TileRecv 0 0 0 5,
               TileGetForReading MatA 0 2, TileGetForReading MatT 0 2, TileGetForWriting MatC 0 2,
               Tpmlqt Right ConjTrans 4 (0, 2) (0, 2) (0, 0) (0, 2),
               TileTick MatA 0 2, TileTick MatT 0 2, TileSend 0 0 0 5, TileTick MatC 0 0])]"
  "ttmlq_levels (row_call ConjTrans 4 3 5) =
     Inr [(1, [TileRecv 0 2 2 5,
               TileGetForReading MatA 0 3, TileGetForReading MatT 0 3, TileGetForWriting MatC 0 3,
               Tpmlqt Right ConjTrans 4 (0, 3) (0, 3) (0, 2) (0, 3),
               TileTick MatA 0 3, TileTick MatT 0 3, TileSend 0 2 2 5, TileTick MatC 0 2]),
          (2, [])]"
  by code_simp+

lemma scenario_run:
  "let K1 = kern Right ConjTrans 4 (c 1 (MatA, 0, 1)) (c 1 (MatT, 0, 1))
              (c 0 (MatC, 0, 0)) (c 1 (MatC, 0, 1));
       K3 = kern Right ConjTrans 4 (c 3 (MatA, 0, 3)) (c 3 (MatT, 0, 3))
              (c 2 (MatC, 0, 2)) (c 3 (MatC, 0, 3));
       K2 = kern Right ConjTrans 4 (c 2 (MatA, 0, 2)) (c 2 (MatT, 0, 2)) (fst K1) (fst K3);
       w = scenario kern [0, 1, 2, 3] c
   in map todo (fst w) = [[], [], [], []] \<and> map aborted (fst w) = [False, False, False, False]
      \<and> snd w = []
      \<and> tiles (fst w ! 0) (MatC, 0, 0) = fst K2
      \<and> tiles (fst w ! 1) (MatC, 0, 1) = snd K1
      \<and> tiles (fst w ! 2) (MatC, 0, 2) = snd K2
      \<and> tiles (fst w ! 3) (MatC, 0, 3) = snd K3"
  by (simp add: scenario_def process_of_def scenario_traces mpiRank_row_call Let_def
      eval_nat_numeral exec_def)

lemma scenario_run_reversed:
  "let K1 = kern Right ConjTrans 4 (c 1 (MatA, 0, 1)) (c 1 (MatT, 0, 1))
              (c 0 (MatC, 0, 0)) (c 1 (MatC, 0, 1));
       K3 = kern Right ConjTrans 4 (c 3 (MatA, 0, 3)) (c 3 (MatT, 0, 3))
              (c 2 (MatC, 0, 2)) (c 3 (MatC, 0, 3));
       K2 = kern Right ConjTrans 4 (c 2 (MatA, 0, 2)) (c 2 (MatT, 0, 2)) (fst K1) (fst K3);
       w = scenario kern [3, 2, 1, 0] c
   in map todo (fst w) = [[], [], [], []] \<and> map aborted (fst w) = [False, False, False, False]
      \<and> snd w = []
      \<and> tiles (fst w ! 3) (MatC, 0, 0) = fst K2
      \<and> tiles (fst w ! 2) (MatC, 0, 1) = snd K1
      \<and> tiles (fst w ! 1) (MatC, 0, 2) = snd K2
      \<and> tiles (fst w ! 0) (MatC, 0, 3) = snd K3"
  by (simp add: scenario_def process_of_def scenario_traces mpiRank_row_call Let_def
      eval_nat_numeral exec_def)

text \<open>
  Claim C8, as stated, fails in its last part. With a kernel that records its applications,
  the tiles of ranks 1 and 3 after the reduction are not what they were before: each is the
  second result of the kernel that the rank ran at the first level, on its own tile and the
  tile received from rank 0 (rank 2 for rank 3). \<^verbatim>\<open>ttmlq\<close> acquires that tile for writing
  and hands it to \<^verbatim>\<open>tpmlqt\<close> as the last operand.
\<close>

theorem leaf_tiles_change:
  "tiles (fst (scenario symbolic_kernel [0, 1, 2, 3] originals) ! 1) (MatC, 0, 1)
     = Updated_second Right ConjTrans 4 (Original 1 MatA 0 1) (Original 1 MatT 0 1)
         (Original 0 MatC 0 0) (Original 1 MatC 0 1)
   \<and> tiles (fst (scenario symbolic_kernel [0, 1, 2, 3] originals) ! 1) (MatC, 0, 1)
     \<noteq> originals 1 (MatC, 0, 1)
   \<and> tiles (fst (scenario symbolic_kernel [0, 1, 2, 3] originals) ! 3) (MatC, 0, 3)
     = Updated_second Right ConjTrans 4 (Original 3 MatA 0 3) (Original 3 MatT 0 3)
         (Original 2 MatC 0 2) (Original 3 MatC 0 3)
   \<and> tiles (fst (scenario symbolic_kernel [0, 1, 2, 3] originals) ! 3) (MatC, 0, 3)
     \<noteq> originals 3 (MatC, 0, 3)"
  by code_simp

text \<open>
  Claim C8, amended. In the scenario of four ranks with one trailing tile each, walked from
  the leaves to the root: at the level with step 1, rank 0 exchanges with rank 1 and rank 2
  with rank 3; at the level with step 2, rank 0 exchanges with rank 2. For every kernel and
  all contents, every process runs to its end, no message is left, and afterwards the tile of
  rank 0 is the first result of the kernel of rank 2 at the second level, applied to the first
  results of the kernels of ranks 1 and 3: it combines all four original tiles. The tiles of
  ranks 1 and 3 are the second results of their kernels at the first level, and the tile of
  rank 2 is the second result of its kernel at the second level. The result is the same when
  the processes take their turns in the opposite order.
\<close>

theorem four_rank_reduction:
  "ttmlq_levels (row_call ConjTrans 4 0 5) =
     Inr [(1, [TileGetForWriting MatC 0 0, TileSend 0 0 1 5, AssertModified 0 0, TileRecv 0 0 1 5]),
          (2, [TileGetForWriting MatC 0 0, TileSend 0 0 2 5, AssertModified 0 0, TileRecv 0 0 2 5])]
   \<and> ttmlq_levels (row_call ConjTrans 4 1 5) =
     Inr [(1, [TileRecv 0 0 0 5,
               TileGetForReading MatA 0 1, TileGetForReading MatT 0 1, TileGetForWriting MatC 0 1,
               Tpmlqt Right ConjTrans 4 (0, 1) (0, 1) (0, 0) (0, 1),
               TileTick MatA 0 1, TileTick MatT 0 1, TileSend 0 0 0 5, TileTick MatC 0 0]),
          (2, [])]
   \<and> ttmlq_levels (row_call ConjTrans 4 2 5) =
     Inr [(1, [TileGetForWriting MatC 0 2, TileSend 0 2 3 5, AssertModified 0 2, TileRecv 0 2 3 5]),
          (2, [TileRecv 0 0 0 5,
               TileGetForReading MatA 0 2, TileGetForReading MatT 0 2, TileGetForWriting MatC 0 2,
               Tpmlqt Right ConjTrans 4 (0, 2) (0, 2) (0, 0) (0, 2),
               TileTick MatA 0 2, TileTick MatT 0 2, TileSend 0 0 0 5, TileTick MatC 0 0])]
   \<and> ttmlq_levels (row_call ConjTrans 4 3 5) =
     Inr [(1, [TileRecv 0 2 2 5,
               TileGetForReading MatA 0 3, TileGetForReading MatT 0 3, TileGetForWriting MatC 0 3,
               Tpmlqt Right ConjTrans 4 (0, 3) (0, 3) (0, 2) (0, 3),
               TileTick MatA 0 3, TileTick MatT 0 3, TileSend 0 2 2 5, TileTick MatC 0 2]),
          (2, [])]
   \<and> (let K1 = kern Right ConjTrans 4 (c 1 (MatA, 0, 1)) (c 1 (MatT, 0, 1))
                 (c 0 (MatC, 0, 0)) (c 1 (MatC, 0, 1));
          K3 = kern Right ConjTrans 4 (c 3 (MatA, 0, 3)) (c 3 (MatT, 0, 3))
                 (c 2 (MatC, 0, 2)) (c 3 (MatC, 0, 3));
          K2 = kern Right ConjTrans 4 (c 2 (MatA, 0, 2)) (c 2 (MatT, 0, 2)) (fst K1) (fst K3);
          w = scenario kern [0, 1, 2, 3] c;
          w' = scenario kern [3, 2, 1, 0] c
      in map todo (fst w) = [[], [], [], []] \<and> map aborted (fst w) = [False, False, False, False]
         \<and> snd w = []
         \<and> tiles (fst w ! 0) (MatC, 0, 0) = fst K2
         \<and> tiles (fst w ! 1) (MatC, 0, 1) = snd K1
         \<and> tiles (fst w ! 2) (MatC, 0, 2) = snd K2
         \<and> tiles (fst w ! 3) (MatC, 0, 3) = snd K3
         \<and> map todo (fst w') = [[], [], [], []]
         \<and> tiles (fst w' ! 3) (MatC, 0, 0) = fst K2
         \<and> tiles (fst w' ! 2) (MatC, 0, 1) = snd K1
         \<and> tiles (fst w' ! 1) (MatC, 0, 2) = snd K2
         \<and> tiles (fst w' ! 0) (MatC, 0, 3) = snd K3)"
  using scenario_levels scenario_run [of kern c] scenario_run_reversed [of kern c]
  by (simp only: Let_def simp_thms)

end
